theory Spec2Isabelle
  imports Complex_Main "HOL-Library.Monad_Syntax"
begin

text \<open>
  A shallow embedding of two parts of the Go package \<open>godsp\<close>: the sectioned
  Daubechies-4 lifting transform of \<open>godsp/dwt\<close> (\<open>getTransformSections\<close>,
  \<open>split\<close>, \<open>daubechies4\<close>, \<open>Daubechies4\<close>, \<open>GetCoefficients\<close>,
  \<open>GetDownSampledCoefficients\<close>) and the peak detection by persistent homology
  (\<open>GetPeaks\<close>, \<open>getPersistence\<close>, \<open>MinMaxPersistence\<close>,
  \<open>GetIndices\<close>), with the helpers \<open>Pow2\<close>, \<open>Log2\<close> and
  \<open>DownSample\<close> they call.  A panic of the source is an error value of the model.
\<close>

section \<open>Integer helpers of package godsp\<close>

text \<open>
  Go's \<open>int\<close> is a 64-bit two's complement integer.  Integers are modelled as
  \<open>int\<close>; \<open>wrap64\<close> is the wrap-around that every Go arithmetic operation
  applies to its mathematical result.  It is written out where a result can leave the
  64-bit range: the doubling in \<open>Pow2\<close>, and the sums, differences and products
  of \<open>getTransformSections\<close>.
\<close>

definition wrap64 :: "int \<Rightarrow> int" where
  "wrap64 x = (x + 2 ^ 63) mod 2 ^ 64 - 2 ^ 63"

datatype error =
    NegativeExponent      \<comment> \<open>the explicit panic of \<open>Pow2\<close>\<close>
  | OutsideModel          \<comment> \<open>no panic of the source: an argument the model does not cover\<close>
  | IndexOutOfRange       \<comment> \<open>index or slice bounds outside the slice\<close>
  | NotMultiple           \<comment> \<open>the explicit panic of \<open>DownSample\<close>\<close>
  | DivideByZero          \<comment> \<open>integer division by zero\<close>
  | NegativeLength        \<comment> \<open>\<open>make\<close> with a negative length\<close>

text \<open>
  \<open>Pow2\<close>: \<open>pw := 1; for i := 1; i <= x; i++ { pw *= 2 }\<close>, after the panic for
  a negative argument.  The loop body runs \<open>x\<close> times.
\<close>

fun Pow2_loop :: "nat \<Rightarrow> int \<Rightarrow> int" where
  "Pow2_loop 0 pw = pw"
| "Pow2_loop (Suc k) pw = Pow2_loop k (wrap64 (pw * 2))"

definition Pow2 :: "int \<Rightarrow> error + int" where
  "Pow2 x = (if x < 0 then Inl NegativeExponent else Inr (Pow2_loop (nat x) 1))"

text \<open>
  \<open>Log2 n = int(math.Log2(float64(n)))\<close>, a computation in \<open>float64\<close>.
  \<^item> For \<open>n \<le> 0\<close> the float is \<open>-Inf\<close> or NaN.  The conversion of such a value to
    \<open>int\<close> does not panic; Go leaves its result to the implementation.  The model
    takes the result on amd64, the least \<open>int\<close>, \<open>-2^63\<close>.
  \<^item> For \<open>0 < n < 2^48\<close> the float result, truncated, is the integer logarithm
    \<open>ilog2 n\<close>: below \<open>2^48\<close> the logarithm of a number that is not a power of
    two stays further from the next integer than \<open>float64\<close> can round.
  \<^item> From \<open>2^48\<close> on the result depends on that rounding: at \<open>n = 2^49 - 1\<close> it
    is 49, one more than the integer logarithm.  The model does not follow the float
    computation there: it returns \<open>OutsideModel\<close>, which stands for no panic of the
    source but for the edge of the model.  No slice of \<open>float64\<close> has \<open>2^48\<close>
    elements, so \<open>Daubechies4\<close> never calls \<open>Log2\<close> on such a number unless
    the loop of \<open>getTransformSections\<close> has already gone wrong.
\<close>

fun ilog2 :: "nat \<Rightarrow> nat" where
  "ilog2 n = (if n < 2 then 0 else Suc (ilog2 (n div 2)))"

declare ilog2.simps [simp del]

definition Log2 :: "int \<Rightarrow> error + int" where
  "Log2 n =
     (if n \<le> 0 then Inr (- (2 ^ 63))
      else if n < 2 ^ 48 then Inr (int (ilog2 (nat n)))
      else Inl OutsideModel)"

section \<open>Package dwt: sections\<close>

record transformSection =
  start :: int
  size :: int

text \<open>
  \<open>getTransformSections\<close>:
  \<open>for start := 0; N-start >= 64*godsp.Pow2(level); { size := Pow2(Log2(N - start)); ...;
  start += size }\<close>.  The loop condition calls \<open>Pow2(level)\<close> at every test.
\<close>

function getTransformSections_loop :: "int \<Rightarrow> int \<Rightarrow> int \<Rightarrow> error + transformSection list" where
  "getTransformSections_loop N level st =
     (case Pow2 level of
        Inl e \<Rightarrow> Inl e
      | Inr p \<Rightarrow>
          if wrap64 (N - st) \<ge> wrap64 (64 * p) then
            (case Log2 (wrap64 (N - st)) of
               Inl e \<Rightarrow> Inl e
             | Inr k \<Rightarrow>
                 (case Pow2 k of
                    Inl e \<Rightarrow> Inl e
                  | Inr sz \<Rightarrow>
                      (case getTransformSections_loop N level (wrap64 (st + sz)) of
                         Inl e \<Rightarrow> Inl e
                       | Inr secs \<Rightarrow> Inr (\<lparr>start = st, size = sz\<rparr> # secs))))
          else Inr [])"
  by pat_completeness auto

lemma wrap64_id: "- (2 ^ 63) \<le> x \<Longrightarrow> x < 2 ^ 63 \<Longrightarrow> wrap64 x = x"
  by (simp add: wrap64_def)

lemma wrap64_id_nonneg: "0 \<le> x \<Longrightarrow> x \<le> 2 ^ 62 \<Longrightarrow> wrap64 x = x"
  by (simp add: wrap64_def)

lemma wrap64_range: "- (2 ^ 63) \<le> wrap64 x \<and> wrap64 x < 2 ^ 63"
  by (simp add: wrap64_def)

lemma wrap64_ex: "\<exists>q. wrap64 x = x + 2 ^ 64 * q"
proof -
  have "(x + 2 ^ 63) mod 2 ^ 64 = (x + 2 ^ 63) - 2 ^ 64 * ((x + 2 ^ 63) div 2 ^ 64)"
    by (simp add: minus_mult_div_eq_mod)
  then have "wrap64 x = x + 2 ^ 64 * (- ((x + 2 ^ 63) div 2 ^ 64))"
    by (simp add: wrap64_def)
  then show ?thesis by blast
qed

lemma wrap64_unique:
  assumes "- (2 ^ 63) \<le> y" "y < 2 ^ 63" "x = y + 2 ^ 64 * q"
  shows "wrap64 x = y"
proof -
  have "(x + 2 ^ 63) mod 2 ^ 64 = (y + 2 ^ 63 + 2 ^ 64 * q) mod 2 ^ 64"
    using assms(3) by (simp add: algebra_simps)
  also have "\<dots> = (y + 2 ^ 63) mod 2 ^ 64"
    by (rule mod_mult_self2)
  also have "\<dots> = y + 2 ^ 63"
    using assms(1,2) by simp
  finally show ?thesis by (simp add: wrap64_def)
qed

lemma wrap64_mult_left: "wrap64 (wrap64 a * c) = wrap64 (a * c)"
proof -
  obtain q where q: "wrap64 a = a + 2 ^ 64 * q" using wrap64_ex by blast
  obtain r where r: "wrap64 (a * c) = a * c + 2 ^ 64 * r" using wrap64_ex by blast
  have "wrap64 a * c = wrap64 (a * c) + 2 ^ 64 * (q * c - r)"
    by (simp add: q r algebra_simps)
  then show ?thesis
    using wrap64_range [of "a * c"] by (intro wrap64_unique [where q = "q * c - r"]) auto
qed

lemma Pow2_loop_wrap: "Pow2_loop k (wrap64 pw) = wrap64 (pw * 2 ^ k)"
proof (induction k arbitrary: pw)
  case 0
  then show ?case by simp
next
  case (Suc k)
  have "Pow2_loop (Suc k) (wrap64 pw) = Pow2_loop k (wrap64 (wrap64 pw * 2))" by simp
  also have "\<dots> = Pow2_loop k (wrap64 (pw * 2))" by (simp only: wrap64_mult_left)
  also have "\<dots> = wrap64 (pw * 2 * 2 ^ k)" by (rule Suc.IH)
  finally show ?case by (simp add: mult.assoc)
qed

lemma Pow2_eq: "0 \<le> x \<Longrightarrow> Pow2 x = Inr (wrap64 (2 ^ nat x))"
  using Pow2_loop_wrap [of "nat x" 1] by (simp add: Pow2_def wrap64_id)

lemma Pow2_small: "0 \<le> x \<Longrightarrow> x \<le> 62 \<Longrightarrow> Pow2 x = Inr (2 ^ nat x)"
proof -
  assume x: "0 \<le> x" "x \<le> 62"
  have "(2::int) ^ nat x \<le> 2 ^ 62" using x by (intro power_increasing) auto
  then have "wrap64 (2 ^ nat x) = 2 ^ nat x" by (intro wrap64_id_nonneg) simp_all
  then show ?thesis using x by (simp add: Pow2_eq)
qed

lemma ilog2_bounds: "0 < n \<Longrightarrow> 2 ^ ilog2 n \<le> n \<and> n < 2 * 2 ^ ilog2 n"
proof (induction n rule: ilog2.induct)
  case (1 n)
  show ?case
  proof (cases "n < 2")
    case True
    with 1(2) show ?thesis by (simp add: ilog2.simps [of n])
  next
    case False
    then have "0 < n div 2" by simp
    with 1(1) False have "2 ^ ilog2 (n div 2) \<le> n div 2 \<and> n div 2 < 2 * 2 ^ ilog2 (n div 2)"
      by simp
    then show ?thesis using False by (simp add: ilog2.simps [of n]) linarith
  qed
qed

lemma wrap64_step:
  assumes "0 < sz" "sz \<le> wrap64 (N - st)"
  shows "wrap64 (N - wrap64 (st + sz)) = wrap64 (N - st) - sz"
proof -
  obtain q1 where q1: "wrap64 (N - st) = N - st + 2 ^ 64 * q1" using wrap64_ex by blast
  obtain q2 where q2: "wrap64 (st + sz) = st + sz + 2 ^ 64 * q2" using wrap64_ex by blast
  have "N - wrap64 (st + sz) = (wrap64 (N - st) - sz) + 2 ^ 64 * (- q1 - q2)"
    by (simp add: q1 q2 algebra_simps)
  moreover have "- (2 ^ 63) \<le> wrap64 (N - st) - sz" using assms by simp
  moreover have "wrap64 (N - st) - sz < 2 ^ 63"
    using assms(1) wrap64_range [of "N - st"] by simp
  ultimately show ?thesis by (intro wrap64_unique [where q = "- q1 - q2"])
qed

lemma ilog2_int_bounds:
  assumes "0 < d"
  shows "2 ^ ilog2 (nat d) \<le> d" and "d < 2 * 2 ^ ilog2 (nat d)"
proof -
  have "0 < nat d" using assms by simp
  from ilog2_bounds [OF this]
  have a: "2 ^ ilog2 (nat d) \<le> nat d" and b: "nat d < 2 * 2 ^ ilog2 (nat d)" by simp_all
  have "int (2 ^ ilog2 (nat d)) \<le> int (nat d)" using a by (simp only: of_nat_le_iff)
  then show "2 ^ ilog2 (nat d) \<le> d" using assms by simp
  have "int (nat d) < int (2 * 2 ^ ilog2 (nat d))" using b by (simp only: of_nat_less_iff)
  then show "d < 2 * 2 ^ ilog2 (nat d)" using assms by simp
qed

lemma ilog2_le_62:
  assumes "0 < d" "d < 2 ^ 63"
  shows "ilog2 (nat d) \<le> 62"
proof -
  have "(2::int) ^ ilog2 (nat d) < 2 ^ 63"
    using ilog2_int_bounds(1) [OF assms(1)] assms(2) by linarith
  then have "ilog2 (nat d) < 63" by (simp only: power_strict_increasing_iff [of 2])
  then show ?thesis by simp
qed

lemma Pow2_negative: "x < 0 \<Longrightarrow> Pow2 x = Inl NegativeExponent"
  by (simp add: Pow2_def)

lemma Pow2_Log2:
  assumes "0 < d" "d < 2 ^ 48"
  shows "Log2 d = Inr (int (ilog2 (nat d)))"
    and "Pow2 (int (ilog2 (nat d))) = Inr (2 ^ ilog2 (nat d))"
proof -
  have "d < 2 ^ 63" using assms(2) by simp
  from ilog2_le_62 [OF assms(1) this] assms
  show "Log2 d = Inr (int (ilog2 (nat d)))"
    and "Pow2 (int (ilog2 (nat d))) = Inr (2 ^ ilog2 (nat d))"
    by (simp_all add: Log2_def Pow2_small)
qed

termination getTransformSections_loop
proof (relation "measure (\<lambda>(N, level, st). nat (wrap64 (N - st)))", goal_cases)
  case 1
  show ?case by simp
next
  case (2 N level st p k sz)
  let ?d = "wrap64 (N - st)"
  have d0: "0 < ?d"
  proof (rule ccontr)
    assume "\<not> 0 < ?d"
    with 2(3) have "k = - (2 ^ 63)" by (simp add: Log2_def)
    with 2(4) show False by (simp add: Pow2_negative)
  qed
  from 2(3) have d1: "?d < 2 ^ 48" by (auto simp: Log2_def split: if_splits)
  from 2(3) Pow2_Log2(1) [OF d0 d1] have k: "k = int (ilog2 (nat ?d))" by simp
  with 2(4) Pow2_Log2(2) [OF d0 d1] have sz: "sz = 2 ^ ilog2 (nat ?d)" by simp
  have "0 < sz" by (simp add: sz)
  moreover have "sz \<le> ?d" unfolding sz by (rule ilog2_int_bounds(1) [OF d0])
  ultimately have "wrap64 (N - wrap64 (st + sz)) = ?d - sz" by (rule wrap64_step)
  with \<open>0 < sz\<close> d0 show ?case by simp
qed

declare getTransformSections_loop.simps [simp del]

definition getTransformSections :: "int \<Rightarrow> int \<Rightarrow> error + transformSection list" where
  "getTransformSections N level = getTransformSections_loop N level 0"

text \<open>Consecutive sections: each starts where the one before it ends.\<close>

fun contiguous :: "int \<Rightarrow> transformSection list \<Rightarrow> bool" where
  "contiguous a [] = True"
| "contiguous a (s # ss) = (start s = a \<and> 0 < size s \<and> contiguous (a + size s) ss)"

lemma threshold_small:
  assumes "0 \<le> level" "level \<le> 56"
  shows "Pow2 level = Inr (2 ^ nat level)" and "wrap64 (64 * 2 ^ nat level) = 64 * 2 ^ nat level"
    and "(64::int) \<le> 64 * 2 ^ nat level"
proof -
  show "Pow2 level = Inr (2 ^ nat level)" using assms by (simp add: Pow2_small)
  have "(2::int) ^ nat level \<le> 2 ^ 56" using assms by (intro power_increasing) auto
  then have "(64::int) * 2 ^ nat level \<le> 2 ^ 62" by simp
  then show "wrap64 (64 * 2 ^ nat level) = 64 * 2 ^ nat level"
    by (intro wrap64_id_nonneg) simp_all
  have "(1::int) \<le> 2 ^ nat level" by simp
  then show "(64::int) \<le> 64 * 2 ^ nat level" by linarith
qed

lemma getTransformSections_loop_stop:
  assumes "0 \<le> level" "level \<le> 56" "0 \<le> st" "st \<le> N" "N < 2 ^ 63"
    "N - st < 64 * 2 ^ nat level"
  shows "getTransformSections_loop N level st = Inr []"
proof -
  have w: "wrap64 (N - st) = N - st" using assms by (intro wrap64_id) simp_all
  note t = threshold_small [OF assms(1,2)]
  show ?thesis using assms(6)
    by (subst getTransformSections_loop.simps) (simp add: t w)
qed

lemma getTransformSections_loop_step:
  assumes "0 \<le> level" "level \<le> 56" "0 \<le> st" "st \<le> N" "N < 2 ^ 48"
  shows "getTransformSections_loop N level st =
     (if 64 * 2 ^ nat level \<le> N - st then
        (case getTransformSections_loop N level (st + 2 ^ ilog2 (nat (N - st))) of
           Inl e \<Rightarrow> Inl e
         | Inr secs \<Rightarrow> Inr (\<lparr>start = st, size = 2 ^ ilog2 (nat (N - st))\<rparr> # secs))
      else Inr [])"
proof -
  have w: "wrap64 (N - st) = N - st" using assms by (intro wrap64_id) simp_all
  note t = threshold_small [OF assms(1,2)]
  show ?thesis
  proof (cases "64 * 2 ^ nat level \<le> N - st")
    case False
    then show ?thesis
      by (subst getTransformSections_loop.simps) (simp add: t w)
  next
    case True
    then have d0: "0 < N - st" using t(3) by linarith
    have d1: "N - st < 2 ^ 48" using assms by simp
    have le: "2 ^ ilog2 (nat (N - st)) \<le> N - st" by (rule ilog2_int_bounds(1) [OF d0])
    have "(0::int) < 2 ^ ilog2 (nat (N - st))" by simp
    moreover have "N < 2 ^ 63" using assms(5) by simp
    ultimately have "wrap64 (st + 2 ^ ilog2 (nat (N - st))) = st + 2 ^ ilog2 (nat (N - st))"
      using le assms(3,4) by (intro wrap64_id) linarith+
    then show ?thesis using True
      by (subst getTransformSections_loop.simps) (simp add: t w Pow2_Log2 [OF d0 d1])
  qed
qed

lemma getTransformSections_loop_sound:
  assumes "0 \<le> level" "level \<le> 56" "0 \<le> st" "st \<le> N" "N < 2 ^ 48"
  shows "\<exists>secs. getTransformSections_loop N level st = Inr secs \<and> contiguous st secs \<and>
           (\<forall>s \<in> set secs. \<exists>k. size s = 2 ^ k \<and> 64 * 2 ^ nat level \<le> size s) \<and>
           st + sum_list (map size secs) \<le> N \<and>
           N - (st + sum_list (map size secs)) < 64 * 2 ^ nat level"
  using assms(3,4)
proof (induction "nat (N - st)" arbitrary: st rule: less_induct)
  case less
  note step = getTransformSections_loop_step [OF assms(1,2) less(2,3) assms(5)]
  note t = threshold_small [OF assms(1,2)]
  show ?case
  proof (cases "64 * 2 ^ nat level \<le> N - st")
    case False
    then show ?thesis using less(3) by (simp add: step)
  next
    case True
    let ?sz = "(2::int) ^ ilog2 (nat (N - st))"
    have d0: "0 < N - st" using True t(3) by linarith
    have le: "?sz \<le> N - st" by (rule ilog2_int_bounds(1) [OF d0])
    have gt: "N - st < 2 * ?sz" by (rule ilog2_int_bounds(2) [OF d0])
    have pos: "0 < ?sz" by simp
    have "nat (N - (st + ?sz)) < nat (N - st)" using pos d0 by linarith
    moreover have "0 \<le> st + ?sz" using less(2) pos by linarith
    moreover have "st + ?sz \<le> N" using le by linarith
    ultimately obtain secs where secs:
      "getTransformSections_loop N level (st + ?sz) = Inr secs" "contiguous (st + ?sz) secs"
      "\<forall>s \<in> set secs. \<exists>k. size s = 2 ^ k \<and> 64 * 2 ^ nat level \<le> size s"
      "st + ?sz + sum_list (map size secs) \<le> N"
      "N - (st + ?sz + sum_list (map size secs)) < 64 * 2 ^ nat level"
      using less(1) [of "st + ?sz"] by blast
    have big: "64 * 2 ^ nat level \<le> ?sz"
    proof -
      have "(2::int) ^ (6 + nat level) < 2 ^ Suc (ilog2 (nat (N - st)))"
        using True gt by (simp add: power_add)
      then have "6 + nat level < Suc (ilog2 (nat (N - st)))"
        by (simp only: power_strict_increasing_iff [of 2])
      then have "(2::int) ^ (6 + nat level) \<le> 2 ^ ilog2 (nat (N - st))"
        by (intro power_increasing) auto
      then show ?thesis by (simp add: power_add)
    qed
    have "getTransformSections_loop N level st = Inr (\<lparr>start = st, size = ?sz\<rparr> # secs)"
      using True secs(1) by (simp add: step)
    moreover have "\<exists>k. ?sz = 2 ^ k" by blast
    ultimately show ?thesis using secs(2-5) pos big
      by (auto simp: algebra_simps)
  qed
qed

section \<open>Package dwt: the lifting steps\<close>

text \<open>
  Samples are \<open>float64\<close> in the source and real numbers here: the model keeps the
  order and the operands of every arithmetic operation and leaves out rounding.

  Go's integer division truncates towards zero.
\<close>

definition tdiv :: "int \<Rightarrow> int \<Rightarrow> int" where
  "tdiv a b = sgn a * sgn b * (\<bar>a\<bar> div \<bar>b\<bar>)"

text \<open>
  \<open>split\<close>: three loops.  The first copies the samples at the odd indexes
  \<open>1, 3, ...\<close> to a fresh slice \<open>odd\<close>, the second moves the samples at
  \<open>2, 4, ...\<close> to the front in place, the third writes \<open>odd\<close> to the back
  half.
\<close>

definition split_odd :: "real list \<Rightarrow> real list" where
  "split_odd s = fold (\<lambda>i od. od[i div 2 := s ! i])
                      (map (\<lambda>j. 2 * j + 1) [0..<length s div 2])
                      (replicate (length s div 2) 0)"

definition split_even :: "real list \<Rightarrow> real list" where
  "split_even s = fold (\<lambda>i s. s[i div 2 := s ! i])
                       (map (\<lambda>j. 2 * j) [1..<(length s + 1) div 2]) s"

definition split_back :: "nat \<Rightarrow> real list \<Rightarrow> real list \<Rightarrow> real list" where
  "split_back half od s = fold (\<lambda>i s. s[half + i := od ! i]) [0..<length od] s"

definition split :: "real list \<Rightarrow> real list" where
  "split s = split_back (length s div 2) (split_odd s) (split_even s)"

text \<open>\<open>daubechies4\<close>: the four loops of the lifting step, in the order of the source.\<close>

definition update1 :: "real list \<Rightarrow> real list" where
  "update1 s = (let half = length s div 2
                in fold (\<lambda>n s. s[n := s ! n + sqrt 3 * s ! (half + n)]) [0..<half] s)"

definition predict :: "real list \<Rightarrow> real list" where
  "predict s =
     (let half = length s div 2;
          s1 = s[half := s ! half - (sqrt 3 / 4) * s ! 0 - ((sqrt 3 - 2) / 4) * s ! (half - 1)]
      in fold (\<lambda>n s. s[half + n := s ! (half + n) - (sqrt 3 / 4) * s ! n
                                                  - ((sqrt 3 - 2) / 4) * s ! (n - 1)])
              [1..<half] s1)"

definition update2 :: "real list \<Rightarrow> real list" where
  "update2 s =
     (let half = length s div 2;
          s1 = fold (\<lambda>n s. s[n := s ! n - s ! (half + n + 1)]) [0..<half - 1] s
      in s1[half - 1 := s1 ! (half - 1) - s1 ! half])"

definition normalise :: "real list \<Rightarrow> real list" where
  "normalise s =
     (let half = length s div 2
      in fold (\<lambda>n s. let s' = s[n := ((sqrt 3 - 1) / sqrt 2) * s ! n]
                        in s'[n + half := ((sqrt 3 + 1) / sqrt 2) * s' ! (n + half)])
              [0..<half] s)"

text \<open>
  With \<open>half = 0\<close> (a window of length 0 or 1) the first statement of Predict reads
  \<open>s[half]\<close> or \<open>s[half-1]\<close> outside the slice and the function panics; with
  \<open>half > 0\<close> every index used is below \<open>2 * half\<close>.
\<close>

definition daubechies4 :: "real list \<Rightarrow> error + real list" where
  "daubechies4 s =
     (if length s div 2 = 0 then Inl IndexOutOfRange
      else Inr (normalise (update2 (predict (update1 s)))))"

section \<open>Package dwt: the transform\<close>

record Transform =
  st :: "real list"
  level :: int
  sections :: "transformSection list"

text \<open>The slice expression \<open>xs[a:b]\<close> of a slice whose capacity is its length.\<close>

definition slice :: "'a list \<Rightarrow> int \<Rightarrow> int \<Rightarrow> error + 'a list" where
  "slice xs a b =
     (if 0 \<le> a \<and> a \<le> b \<and> b \<le> int (length xs)
      then Inr (take (nat (b - a)) (drop (nat a) xs)) else Inl IndexOutOfRange)"

text \<open>
  One pass at one scale: \<open>split(t.st[a:b]); daubechies4(t.st[a:b])\<close>.  Both work in
  place on the window, so the buffer outside the window is unchanged.
\<close>

definition window_pass :: "real list \<Rightarrow> int \<Rightarrow> int \<Rightarrow> error + real list" where
  "window_pass buf a b =
     (case slice buf a b of
        Inl e \<Rightarrow> Inl e
      | Inr w \<Rightarrow>
          (case daubechies4 (split w) of
             Inl e \<Rightarrow> Inl e
           | Inr w' \<Rightarrow> Inr (take (nat a) buf @ w' @ drop (nat b) buf)))"

text \<open>\<open>for l := level; l > 0; l-- { ...; scaleSize /= 2 }\<close>, with the number of
  remaining iterations as the first argument.\<close>

fun level_loop :: "nat \<Rightarrow> int \<Rightarrow> int \<Rightarrow> real list \<Rightarrow> error + real list" where
  "level_loop 0 a scaleSize buf = Inr buf"
| "level_loop (Suc l) a scaleSize buf =
     (case window_pass buf a (a + scaleSize) of
        Inl e \<Rightarrow> Inl e
      | Inr buf' \<Rightarrow> level_loop l a (tdiv scaleSize 2) buf')"

fun section_loop :: "nat \<Rightarrow> transformSection list \<Rightarrow> real list \<Rightarrow> error + real list" where
  "section_loop l [] buf = Inr buf"
| "section_loop l (s # ss) buf =
     (case level_loop l (start s) (size s) buf of
        Inl e \<Rightarrow> Inl e
      | Inr buf' \<Rightarrow> section_loop l ss buf')"

definition Daubechies4 :: "real list \<Rightarrow> int \<Rightarrow> error + Transform" where
  "Daubechies4 s lv =
     (case getTransformSections (int (length s)) lv of
        Inl e \<Rightarrow> Inl e
      | Inr secs \<Rightarrow>
          (case section_loop (nat lv) secs s of
             Inl e \<Rightarrow> Inl e
           | Inr buf \<Rightarrow> Inr \<lparr>st = buf, level = lv, sections = secs\<rparr>))"

text \<open>\<open>getSectionCoefficients\<close>: band \<open>l\<close> of a section is
  \<open>t.st[start+half : start+2*half]\<close>, \<open>half\<close> halved from one band to the next.\<close>

fun getSectionCoefficients_loop ::
  "nat \<Rightarrow> real list \<Rightarrow> int \<Rightarrow> int \<Rightarrow> error + real list list" where
  "getSectionCoefficients_loop 0 buf a half = Inr []"
| "getSectionCoefficients_loop (Suc l) buf a half =
     (case slice buf (a + half) (a + 2 * half) of
        Inl e \<Rightarrow> Inl e
      | Inr c \<Rightarrow>
          (case getSectionCoefficients_loop l buf a (tdiv half 2) of
             Inl e \<Rightarrow> Inl e
           | Inr cs \<Rightarrow> Inr (c # cs)))"

definition getSectionCoefficients :: "Transform \<Rightarrow> transformSection \<Rightarrow> error + real list list" where
  "getSectionCoefficients t s =
     (if level t < 0 then Inl NegativeLength
      else getSectionCoefficients_loop (nat (level t)) (st t) (start s) (tdiv (size s) 2))"

text \<open>\<open>GetCoefficients\<close>: \<open>cfs[i] = append(cfs[i], c...)\<close> for the bands
  \<open>c\<close> of each section in turn; \<open>cfs\<close> and the bands of a section both have
  \<open>level\<close> entries.\<close>

fun GetCoefficients_loop ::
  "Transform \<Rightarrow> transformSection list \<Rightarrow> real list list \<Rightarrow> error + real list list" where
  "GetCoefficients_loop t [] cfs = Inr cfs"
| "GetCoefficients_loop t (s # ss) cfs =
     (case getSectionCoefficients t s of
        Inl e \<Rightarrow> Inl e
      | Inr scfs \<Rightarrow> GetCoefficients_loop t ss (map2 (@) cfs scfs))"

definition GetCoefficients :: "Transform \<Rightarrow> error + real list list" where
  "GetCoefficients t =
     (if level t < 0 then Inl NegativeLength
      else GetCoefficients_loop t (sections t) (replicate (nat (level t)) []))"

text \<open>\<open>DownSample\<close>: \<open>x1[j] = x[j*n]\<close> for \<open>j < len(x)/n\<close>, after the panic
  when \<open>len(x) % n != 0\<close>.\<close>

definition DownSample :: "real list \<Rightarrow> int \<Rightarrow> error + real list" where
  "DownSample x n =
     (if n = 0 then Inl DivideByZero
      else if \<not> n dvd int (length x) then Inl NotMultiple
      else if tdiv (int (length x)) n < 0 then Inl NegativeLength
      else Inr (map (\<lambda>j. x ! (j * nat n)) [0..<nat (tdiv (int (length x)) n)]))"

text \<open>
  \<open>GetDownSampledCoefficients\<close>: for the bands \<open>cf\<close> of a section, with their
  index \<open>i\<close>,
  \<open>if i < t.level-1 { dscfs[i] = append(dscfs[i], DownSample(cf, Pow2(t.level-(i+1)))...) }\<close>.
  The \<open>if\<close> has no \<open>else\<close>.
\<close>

fun down_bands ::
  "int \<Rightarrow> nat \<Rightarrow> real list list \<Rightarrow> real list list \<Rightarrow> error + real list list" where
  "down_bands lv i [] dscfs = Inr dscfs"
| "down_bands lv i (cf # cfs) [] = Inl IndexOutOfRange"
| "down_bands lv i (cf # cfs) (d # dscfs) =
     (if int i < lv - 1 then
        (case Pow2 (lv - (int i + 1)) of
           Inl e \<Rightarrow> Inl e
         | Inr n \<Rightarrow>
             (case DownSample cf n of
                Inl e \<Rightarrow> Inl e
              | Inr x \<Rightarrow>
                  (case down_bands lv (Suc i) cfs dscfs of
                     Inl e \<Rightarrow> Inl e
                   | Inr r \<Rightarrow> Inr ((d @ x) # r))))
      else
        (case down_bands lv (Suc i) cfs dscfs of
           Inl e \<Rightarrow> Inl e
         | Inr r \<Rightarrow> Inr (d # r)))"

fun GetDownSampledCoefficients_loop ::
  "Transform \<Rightarrow> transformSection list \<Rightarrow> real list list \<Rightarrow> error + real list list" where
  "GetDownSampledCoefficients_loop t [] dscfs = Inr dscfs"
| "GetDownSampledCoefficients_loop t (s # ss) dscfs =
     (case getSectionCoefficients t s of
        Inl e \<Rightarrow> Inl e
      | Inr cfs \<Rightarrow>
          (case down_bands (level t) 0 cfs dscfs of
             Inl e \<Rightarrow> Inl e
           | Inr dscfs' \<Rightarrow> GetDownSampledCoefficients_loop t ss dscfs'))"

definition GetDownSampledCoefficients :: "Transform \<Rightarrow> error + real list list" where
  "GetDownSampledCoefficients t =
     (if level t < 0 then Inl NegativeLength
      else GetDownSampledCoefficients_loop t (sections t) (replicate (nat (level t)) []))"

definition GetDecomposition :: "Transform \<Rightarrow> real list" where
  "GetDecomposition t = st t"

section \<open>Sequences shorter than one section\<close>

lemma getTransformSections_short:
  assumes "0 \<le> lv" "lv \<le> 56" "0 \<le> N" "N < 64 * 2 ^ nat lv"
  shows "getTransformSections N lv = Inr []"
proof -
  have "(2::int) ^ nat lv \<le> 2 ^ 56" using assms by (intro power_increasing) auto
  then have "N < 2 ^ 63" using assms(4) by simp
  from getTransformSections_loop_stop [OF assms(1,2) _ assms(3) this] assms(4)
  show ?thesis by (simp add: getTransformSections_def)
qed

lemma Daubechies4_short:
  assumes "0 \<le> lv" "lv \<le> 56" "int (length s) < 64 * 2 ^ nat lv"
  shows "Daubechies4 s lv = Inr \<lparr>st = s, level = lv, sections = []\<rparr>"
  using getTransformSections_short [OF assms(1,2) _ assms(3)] by (simp add: Daubechies4_def)

lemma GetCoefficients_no_sections:
  "0 \<le> lv \<Longrightarrow> GetCoefficients \<lparr>st = b, level = lv, sections = []\<rparr> = Inr (replicate (nat lv) [])"
  by (simp add: GetCoefficients_def)

text \<open>
  C6, as the code has it.  A sequence of 8 samples is shorter than the smallest section
  at level 1 (\<open>64 * 2 = 128\<close> samples), so the transform has no section and
  \<open>GetCoefficients\<close> returns its one band empty: the band has length 0, not 4.
\<close>

theorem GetCoefficients_eight_samples:
  "length s = 8 \<Longrightarrow>
     \<exists>t. Daubechies4 s 1 = Inr t \<and> sections t = [] \<and> GetCoefficients t = Inr [[]]"
  using Daubechies4_short [of 1 s] GetCoefficients_no_sections [of 1 s] by simp

theorem GetCoefficients_eight_samples_witness:
  "length [1, 2, 3, 4, 5, 6, 7, 8 :: real] = 8 \<and>
     (\<exists>t. Daubechies4 [1, 2, 3, 4, 5, 6, 7, 8] 1 = Inr t \<and> sections t = [] \<and>
          GetCoefficients t = Inr [[]])"
  using GetCoefficients_eight_samples [of "[1, 2, 3, 4, 5, 6, 7, 8]"] by simp

text \<open>C6 as the claim states it fails: there is no band of length 4.\<close>

theorem GetCoefficients_eight_samples_counterexample:
  "\<not> (\<exists>t b. Daubechies4 [1, 2, 3, 4, 5, 6, 7, 8] 1 = Inr t \<and> GetCoefficients t = Inr [b] \<and>
            length b = 4)"
  using Daubechies4_short [of 1 "[1, 2, 3, 4, 5, 6, 7, 8]"]
    GetCoefficients_no_sections [of 1 "[1, 2, 3, 4, 5, 6, 7, 8]"] by auto

text \<open>
  C7, on the levels where \<open>64 * 2^level\<close> fits in an \<open>int\<close>: a sequence shorter
  than \<open>64 * 2^level\<close> gives a transform with no section, and
  \<open>GetCoefficients\<close> returns \<open>level\<close> empty bands.
\<close>

lemma Daubechies4_short_GetCoefficients:
  assumes "0 \<le> lv" "lv \<le> 56" "int (length s) < 64 * 2 ^ nat lv"
  shows "\<exists>t. Daubechies4 s lv = Inr t \<and> sections t = [] \<and>
           GetCoefficients t = Inr (replicate (nat lv) [])"
  using Daubechies4_short [OF assms] GetCoefficients_no_sections [OF assms(1)] by simp

text \<open>
  C7 at level 57: \<open>Pow2(57) = 2^57\<close> and \<open>64 * 2^57 = 2^63\<close> wraps to
  \<open>-2^63\<close>, so the loop condition \<open>N-start >= 64*Pow2(level)\<close> holds whatever
  is left.  For three samples the loop takes the sections of sizes 2 and 1 and then calls
  \<open>Pow2(Log2(0))\<close>, where \<open>Pow2\<close> panics on its negative argument: the
  construction does not return a transform with zero sections.
\<close>

theorem Daubechies4_level_57:
  "Daubechies4 [1, 2, 3] 57 = Inl NegativeExponent"
  by (simp add: Daubechies4_def getTransformSections_def getTransformSections_loop.simps
      Pow2_small Pow2_negative wrap64_def Log2_def ilog2.simps)

text \<open>
  C3 at level 57, for the same reason: with \<open>N = 3\<close> the threshold is never met, and
  yet sections are taken until nothing is left and \<open>Pow2(Log2(0))\<close> panics.
\<close>

theorem getTransformSections_level_57:
  "getTransformSections 3 57 = Inl NegativeExponent"
  by (simp add: getTransformSections_def getTransformSections_loop.simps
      Pow2_small Pow2_negative wrap64_def Log2_def ilog2.simps)

text \<open>
  C3, on the levels where \<open>64 * 2^level\<close> fits in an \<open>int\<close> and the lengths
  below \<open>2^48\<close>, on which \<open>Log2\<close> is the integer logarithm: the sections
  are taken greedily from index 0 (\<open>getTransformSections_loop_step\<close> is one step),
  they are contiguous, every size is a power of two, and the sizes sum to at most
  \<open>N\<close>; what is left after the last section is shorter than \<open>64 * 2^level\<close>.
\<close>

lemma getTransformSections_sound:
  assumes "0 \<le> lv" "lv \<le> 56" "0 \<le> N" "N < 2 ^ 48"
  shows "\<exists>secs. getTransformSections N lv = Inr secs \<and> contiguous 0 secs \<and>
           (\<forall>s \<in> set secs. \<exists>k. size s = 2 ^ k \<and> 64 * 2 ^ nat lv \<le> size s) \<and>
           sum_list (map size secs) \<le> N \<and>
           N - sum_list (map size secs) < 64 * 2 ^ nat lv"
  using getTransformSections_loop_sound [OF assms(1,2) _ assms(3,4)]
  by (simp add: getTransformSections_def)

section \<open>The transform keeps the length of its buffer\<close>

lemma length_fold_update:
  assumes "\<And>i s. length (f i s) = length s"
  shows "length (fold f is s) = length s"
  by (induction "is" arbitrary: s) (simp_all add: assms)

lemma length_split [simp]: "length (split s) = length s"
  by (simp add: split_def split_back_def split_even_def length_fold_update)

lemma length_update1 [simp]: "length (update1 s) = length s"
  by (simp add: update1_def Let_def length_fold_update)

lemma length_predict [simp]: "length (predict s) = length s"
  by (simp add: predict_def Let_def length_fold_update)

lemma length_update2 [simp]: "length (update2 s) = length s"
  by (simp add: update2_def Let_def length_fold_update)

lemma length_normalise [simp]: "length (normalise s) = length s"
  by (simp add: normalise_def Let_def length_fold_update)

lemma daubechies4_length: "daubechies4 s = Inr w \<Longrightarrow> length w = length s"
  by (auto simp: daubechies4_def split: if_splits)

lemma window_pass_ok:
  assumes "0 \<le> a" "a + 2 \<le> b" "b \<le> int (length buf)"
  shows "\<exists>buf'. window_pass buf a b = Inr buf' \<and> length buf' = length buf"
proof -
  let ?w = "take (nat (b - a)) (drop (nat a) buf)"
  have sl: "slice buf a b = Inr ?w" using assms by (simp add: slice_def)
  have len: "length ?w = nat (b - a)" using assms by simp
  then have "length (split ?w) div 2 \<noteq> 0" using assms by simp
  then obtain w' where w': "daubechies4 (split ?w) = Inr w'"
    by (auto simp: daubechies4_def)
  from daubechies4_length [OF this] len have "length w' = nat (b - a)" by simp
  then have "length (take (nat a) buf @ w' @ drop (nat b) buf) = length buf"
    using assms by simp
  then show ?thesis using sl w' by (simp add: window_pass_def)
qed

section \<open>The deepest band of GetDownSampledCoefficients\<close>

lemma tdiv_nonneg: "0 \<le> a \<Longrightarrow> 0 < b \<Longrightarrow> tdiv a b = a div b"
  by (cases "a = 0") (simp_all add: tdiv_def)

lemma getTransformSections_128: "getTransformSections 128 1 = Inr [\<lparr>start = 0, size = 128\<rparr>]"
  by (simp add: getTransformSections_def getTransformSections_loop.simps
      Pow2_small wrap64_def Log2_def ilog2.simps)

lemma Daubechies4_128:
  assumes "length s = 128"
  shows "\<exists>buf. Daubechies4 s 1 = Inr \<lparr>st = buf, level = 1, sections = [\<lparr>start = 0, size = 128\<rparr>]\<rparr>
           \<and> length buf = 128"
proof -
  obtain buf where "window_pass s 0 128 = Inr buf" "length buf = length s"
    using window_pass_ok [of 0 128 s] assms by auto
  then show ?thesis
    using assms by (simp add: Daubechies4_def getTransformSections_128)
qed

lemma coefficients_128:
  assumes "length buf = 128"
  defines "t \<equiv> \<lparr>st = buf, level = 1, sections = [\<lparr>start = 0, size = 128\<rparr>]\<rparr>"
  shows "GetCoefficients t = Inr [drop 64 buf]"
    and "GetDownSampledCoefficients t = Inr [[]]"
proof -
  have "getSectionCoefficients t \<lparr>start = 0, size = 128\<rparr> = Inr [drop 64 buf]"
    using assms(1) by (simp add: getSectionCoefficients_def t_def tdiv_nonneg slice_def)
  then show "GetCoefficients t = Inr [drop 64 buf]"
    and "GetDownSampledCoefficients t = Inr [[]]"
    by (simp_all add: GetCoefficients_def GetDownSampledCoefficients_def t_def)
qed

text \<open>
  Whatever the transform, a band of \<open>GetDownSampledCoefficients\<close> whose index is not
  below \<open>level - 1\<close> is never appended to.
\<close>

lemma down_bands_keeps:
  "down_bands lv i cfs ds = Inr r \<Longrightarrow>
     length r = length ds \<and> (\<forall>j < length ds. lv - 1 \<le> int (i + j) \<longrightarrow> r ! j = ds ! j)"
proof (induction lv i cfs ds arbitrary: r rule: down_bands.induct)
  case (1 lv i dscfs)
  then show ?case by simp
next
  case (2 lv i cf cfs)
  then show ?case by simp
next
  case (3 lv i cf cfs d dscfs)
  show ?case
  proof (cases "int i < lv - 1")
    case True
    with 3(3) obtain n x r' where r': "Pow2 (lv - (int i + 1)) = Inr n" "DownSample cf n = Inr x"
      "down_bands lv (Suc i) cfs dscfs = Inr r'" "r = (d @ x) # r'"
      by (auto split: sum.splits)
    from 3(1) [OF True r'(1,2,3)] True r'(4) show ?thesis
      by (auto simp: nth_Cons split: nat.splits)
  next
    case False
    with 3(3) obtain r' where r': "down_bands lv (Suc i) cfs dscfs = Inr r'" "r = d # r'"
      by (auto split: sum.splits)
    from 3(2) [OF False r'(1)] r'(2) show ?thesis
      by (auto simp: nth_Cons split: nat.splits)
  qed
qed

lemma GetDownSampledCoefficients_loop_keeps:
  "GetDownSampledCoefficients_loop t ss ds = Inr r \<Longrightarrow>
     length r = length ds \<and> (\<forall>j < length ds. level t - 1 \<le> int j \<longrightarrow> r ! j = ds ! j)"
proof (induction ss arbitrary: ds)
  case Nil
  then show ?case by simp
next
  case (Cons s ss)
  then obtain cfs ds' where s: "getSectionCoefficients t s = Inr cfs"
    "down_bands (level t) 0 cfs ds = Inr ds'" "GetDownSampledCoefficients_loop t ss ds' = Inr r"
    by (auto split: sum.splits)
  from down_bands_keeps [OF s(2)] Cons.IH [OF s(3)] show ?case by auto
qed

lemma GetDownSampledCoefficients_deepest_empty:
  assumes "GetDownSampledCoefficients t = Inr r" "1 \<le> level t"
  shows "length r = nat (level t) \<and> r ! (nat (level t) - 1) = []"
proof -
  from assms have "GetDownSampledCoefficients_loop t (sections t) (replicate (nat (level t)) []) = Inr r"
    by (simp add: GetDownSampledCoefficients_def split: if_splits)
  from GetDownSampledCoefficients_loop_keeps [OF this] assms(2) show ?thesis
    by (auto dest!: spec [of _ "nat (level t) - 1"])
qed

text \<open>
  C1 on a sequence of 128 samples at level 1: the transform has the one section
  \<open>(0, 128)\<close>, its deepest (and only) coefficient band has 64 samples, and
  \<open>GetDownSampledCoefficients\<close> returns that band empty.
\<close>

theorem GetDownSampledCoefficients_drops_deepest:
  "\<exists>t b. Daubechies4 (replicate 128 0) 1 = Inr t \<and> sections t = [\<lparr>start = 0, size = 128\<rparr>] \<and>
     GetCoefficients t = Inr [b] \<and> length b = 64 \<and> GetDownSampledCoefficients t = Inr [[]]"
proof -
  obtain buf where buf: "Daubechies4 (replicate 128 0) 1 =
      Inr \<lparr>st = buf, level = 1, sections = [\<lparr>start = 0, size = 128\<rparr>]\<rparr>" "length buf = 128"
    using Daubechies4_128 [of "replicate 128 0"] by auto
  from coefficients_128 [OF buf(2)] buf show ?thesis by simp
qed

section \<open>One transform pass: split and the lifting step\<close>


lemma split_odd_nth:
  "length (split_odd s) = length s div 2 \<and> (\<forall>j < length s div 2. split_odd s ! j = s ! (2 * j + 1))"
proof -
  let ?f = "\<lambda>j od. od[j := s ! (2 * j + 1)]"
  let ?z = "replicate (length s div 2) (0::real)"
  have "k \<le> length s div 2 \<Longrightarrow>
      length (fold ?f [0..<k] ?z) = length s div 2 \<and>
      (\<forall>j < k. fold ?f [0..<k] ?z ! j = s ! (2 * j + 1))" for k
  proof (induction k)
    case 0
    then show ?case by simp
  next
    case (Suc k)
    then have IH: "length (fold ?f [0..<k] ?z) = length s div 2"
      "\<forall>j < k. fold ?f [0..<k] ?z ! j = s ! (2 * j + 1)" by simp_all
    have "fold ?f [0..<Suc k] ?z = (fold ?f [0..<k] ?z)[k := s ! (2 * k + 1)]" by simp
    then show ?case using IH Suc(2) by (simp add: nth_list_update less_Suc_eq)
  qed
  from this [of "length s div 2"] show ?thesis
    by (simp add: split_odd_def fold_map comp_def)
qed


lemma split_even_nth:
  "length (split_even s) = length s \<and>
   (\<forall>j < length s. split_even s ! j = (if j < (length s + 1) div 2 then s ! (2 * j) else s ! j))"
proof -
  let ?f = "\<lambda>j r. r[j := r ! (2 * j)]"
  have "k \<le> (length s + 1) div 2 \<Longrightarrow>
      length (fold ?f [1..<k] s) = length s \<and>
      (\<forall>j < length s. fold ?f [1..<k] s ! j = (if j < k \<and> 0 < j then s ! (2 * j) else s ! j))" for k
  proof (induction k)
    case 0
    then show ?case by simp
  next
    case (Suc k)
    then have IH: "length (fold ?f [1..<k] s) = length s"
        "\<forall>j < length s. fold ?f [1..<k] s ! j = (if j < k \<and> 0 < j then s ! (2 * j) else s ! j)"
        by simp_all
    show ?case
    proof (cases "k = 0")
      case True
      then show ?thesis by simp
    next
      case False
      have k2: "2 * k < length s" using Suc(2) by linarith
      have "fold ?f [1..<Suc k] s = (fold ?f [1..<k] s)[k := fold ?f [1..<k] s ! (2 * k)]"
        using False by simp
      moreover have "fold ?f [1..<k] s ! (2 * k) = s ! (2 * k)" using IH(2) k2 False by simp
      ultimately have eq: "fold ?f [1..<Suc k] s = (fold ?f [1..<k] s)[k := s ! (2 * k)]" by simp
      show ?thesis unfolding eq using IH k2 False
        by (simp add: nth_list_update less_Suc_eq)
    qed
  qed
  from this [of "(length s + 1) div 2"]
  have "length (split_even s) = length s" and
    *: "\<forall>j < length s. split_even s ! j =
       (if j < (length s + 1) div 2 \<and> 0 < j then s ! (2 * j) else s ! j)"
    by (simp_all add: split_even_def fold_map comp_def)
  moreover have "split_even s ! j = (if j < (length s + 1) div 2 then s ! (2 * j) else s ! j)"
    if "j < length s" for j
    using * that by (cases "j = 0") simp_all
  ultimately show ?thesis by blast
qed


lemma fold_upt_invariant:
  assumes "P a s" and "\<And>k r. a \<le> k \<Longrightarrow> k < b \<Longrightarrow> P k r \<Longrightarrow> P (Suc k) (f k r)" and "a \<le> b"
  shows "P b (fold f [a..<b] s)"
proof -
  have "a \<le> k \<Longrightarrow> k \<le> b \<Longrightarrow> P k (fold f [a..<k] s)" for k
  proof (induction k)
    case 0
    then show ?case using assms(1) by simp
  next
    case (Suc k)
    show ?case
    proof (cases "a = Suc k")
      case True
      then show ?thesis using assms(1) by simp
    next
      case False
      with Suc have "P k (fold f [a..<k] s)" "a \<le> k" "k < b" by simp_all
      then show ?thesis using assms(2) [of k "fold f [a..<k] s"] by simp
    qed
  qed
  from this [of b] assms(3) show ?thesis by simp
qed

lemma split_back_nth:
  assumes "h + length od \<le> length s"
  shows "length (split_back h od s) = length s \<and>
     (\<forall>j < length s. split_back h od s ! j =
        (if h \<le> j \<and> j < h + length od then od ! (j - h) else s ! j))"
  unfolding split_back_def
  by (rule fold_upt_invariant [where P = "\<lambda>k r. length r = length s \<and>
        (\<forall>j < length s. r ! j = (if h \<le> j \<and> j < h + k then od ! (j - h) else s ! j))"])
     (use assms in \<open>auto simp: nth_list_update less_Suc_eq\<close>)

lemma update1_nth:
  assumes "j < length s"
  shows "update1 s ! j =
     (if j < length s div 2 then s ! j + sqrt 3 * s ! (length s div 2 + j) else s ! j)"
proof -
  let ?h = "length s div 2"
  have "length (update1 s) = length s \<and> (\<forall>j < length s. update1 s ! j =
     (if j < ?h then s ! j + sqrt 3 * s ! (?h + j) else s ! j))"
    unfolding update1_def Let_def
    by (rule fold_upt_invariant [where P = "\<lambda>k r. length r = length s \<and>
        (\<forall>j < length s. r ! j = (if j < k then s ! j + sqrt 3 * s ! (?h + j) else s ! j))"])
       (auto simp: nth_list_update less_Suc_eq)
  then show ?thesis using assms by simp
qed



lemma predict_nth:
  assumes "j < length s" "0 < length s div 2"
  shows "predict s ! j =
     (if j = length s div 2 then
        s ! j - (sqrt 3 / 4) * s ! 0 - ((sqrt 3 - 2) / 4) * s ! (length s div 2 - 1)
      else if length s div 2 < j \<and> j < 2 * (length s div 2) then
        s ! j - (sqrt 3 / 4) * s ! (j - length s div 2)
              - ((sqrt 3 - 2) / 4) * s ! (j - length s div 2 - 1)
      else s ! j)"
proof -
  let ?h = "length s div 2"
  let ?s1 = "s[?h := s ! ?h - (sqrt 3 / 4) * s ! 0 - ((sqrt 3 - 2) / 4) * s ! (?h - 1)]"
  have "length (predict s) = length s \<and> (\<forall>j < length s. predict s ! j =
     (if ?h < j \<and> j < ?h + ?h then
        s ! j - (sqrt 3 / 4) * s ! (j - ?h) - ((sqrt 3 - 2) / 4) * s ! (j - ?h - 1)
      else ?s1 ! j))"
    unfolding predict_def Let_def
    by (rule fold_upt_invariant [where P = "\<lambda>k r. length r = length s \<and>
        (\<forall>j < length s. r ! j = (if ?h < j \<and> j < ?h + k then
           s ! j - (sqrt 3 / 4) * s ! (j - ?h) - ((sqrt 3 - 2) / 4) * s ! (j - ?h - 1)
         else ?s1 ! j))"])
       (use assms(2) in \<open>auto simp: nth_list_update less_Suc_eq\<close>)
  then show ?thesis using assms by (auto simp: nth_list_update)
qed

lemma update2_nth:
  assumes "j < length s" "0 < length s div 2"
  shows "update2 s ! j =
     (if j < length s div 2 - 1 then s ! j - s ! (length s div 2 + j + 1)
      else if j = length s div 2 - 1 then s ! j - s ! (length s div 2)
      else s ! j)"
proof -
  let ?h = "length s div 2"
  let ?r = "fold (\<lambda>n s. s[n := s ! n - s ! (?h + n + 1)]) [0..<?h - 1] s"
  have r: "length ?r = length s \<and> (\<forall>j < length s. ?r ! j =
     (if j < ?h - 1 then s ! j - s ! (?h + j + 1) else s ! j))"
    by (rule fold_upt_invariant [where P = "\<lambda>k r. length r = length s \<and>
        (\<forall>j < length s. r ! j = (if j < k then s ! j - s ! (?h + j + 1) else s ! j))"])
       (auto simp: nth_list_update less_Suc_eq)
  have "update2 s = ?r[?h - 1 := ?r ! (?h - 1) - ?r ! ?h]"
    by (simp add: update2_def Let_def)
  then show ?thesis using assms r by (auto simp: nth_list_update)
qed

lemma normalise_nth:
  assumes "j < length s"
  shows "normalise s ! j =
     (if j < length s div 2 then ((sqrt 3 - 1) / sqrt 2) * s ! j
      else if j < 2 * (length s div 2) then ((sqrt 3 + 1) / sqrt 2) * s ! j
      else s ! j)"
proof -
  let ?h = "length s div 2"
  have "length (normalise s) = length s \<and> (\<forall>j < length s. normalise s ! j =
     (if j < ?h then ((sqrt 3 - 1) / sqrt 2) * s ! j
      else if ?h \<le> j \<and> j < ?h + ?h then ((sqrt 3 + 1) / sqrt 2) * s ! j else s ! j))"
    unfolding normalise_def Let_def
    by (rule fold_upt_invariant [where P = "\<lambda>k r. length r = length s \<and>
        (\<forall>j < length s. r ! j =
          (if j < k then ((sqrt 3 - 1) / sqrt 2) * s ! j
           else if ?h \<le> j \<and> j < ?h + k then ((sqrt 3 + 1) / sqrt 2) * s ! j else s ! j))"])
       (auto simp: nth_list_update less_Suc_eq)
  then show ?thesis using assms by auto
qed


lemma split_eq:
  assumes "length s = 2 * h"
  shows "split s = map (\<lambda>j. s ! (2 * j)) [0..<h] @ map (\<lambda>j. s ! (2 * j + 1)) [0..<h]"
proof (rule nth_equalityI)
  show "length (split s) = length (map (\<lambda>j. s ! (2 * j)) [0..<h] @ map (\<lambda>j. s ! (2 * j + 1)) [0..<h])"
    using assms by simp
next
  fix j assume "j < length (split s)"
  then have j: "j < 2 * h" using assms by simp
  have h: "length s div 2 = h" "(length s + 1) div 2 = h" using assms by simp_all
  have od: "length (split_odd s) = h" "\<forall>j < h. split_odd s ! j = s ! (2 * j + 1)"
    using split_odd_nth [of s] h by simp_all
  have ev: "length (split_even s) = length s"
    "\<forall>j < length s. split_even s ! j = (if j < h then s ! (2 * j) else s ! j)"
    using split_even_nth [of s] h by simp_all
  have "split s ! j = (if h \<le> j \<and> j < h + h then split_odd s ! (j - h) else split_even s ! j)"
    using split_back_nth [of h "split_odd s" "split_even s"] od(1) ev(1) assms j h
    by (simp add: split_def)
  then show "split s ! j = (map (\<lambda>j. s ! (2 * j)) [0..<h] @ map (\<lambda>j. s ! (2 * j + 1)) [0..<h]) ! j"
    using j od(2) ev(2) assms by (auto simp: nth_append)
qed

text \<open>
  C5.  A window that a pass receives has an even length \<open>2 * h\<close> with \<open>h > 0\<close>
  (a section has at least \<open>64 * 2^level\<close> samples, so the window of each of the
  \<open>level\<close> passes over it has at least 128).  On such a window
  \<open>split\<close> puts the samples at the even indexes, in order, in front of the samples at
  the odd indexes, in order, and \<open>daubechies4\<close> then returns the result of Update 1,
  Predict, Update 2 and Normalise applied in this order, each given here sample by
  sample in terms of the step before it.  \<open>window_pass\<close> on the whole buffer is
  this pass.
\<close>

theorem transform_pass:
  assumes "length s = 2 * h" "0 < h"
  shows "(let w = split s; u = update1 w; p = predict u; q = update2 p; r = normalise q in
     w = map (\<lambda>j. s ! (2 * j)) [0..<h] @ map (\<lambda>j. s ! (2 * j + 1)) [0..<h] \<and>
     daubechies4 w = Inr r \<and>
     window_pass s 0 (int (length s)) = Inr r \<and>
     (\<forall>i < h. u ! i = w ! i + sqrt 3 * w ! (h + i) \<and> u ! (h + i) = w ! (h + i)) \<and>
     p ! h = u ! h - (sqrt 3 / 4) * u ! 0 - ((sqrt 3 - 2) / 4) * u ! (h - 1) \<and>
     (\<forall>i < h. 1 \<le> i \<longrightarrow>
          p ! (h + i) = u ! (h + i) - (sqrt 3 / 4) * u ! i - ((sqrt 3 - 2) / 4) * u ! (i - 1)) \<and>
     (\<forall>i < h. p ! i = u ! i) \<and>
     (\<forall>i < h - 1. q ! i = p ! i - p ! (h + i + 1)) \<and>
     q ! (h - 1) = p ! (h - 1) - p ! h \<and>
     (\<forall>i < h. q ! (h + i) = p ! (h + i)) \<and>
     (\<forall>i < h. r ! i = ((sqrt 3 - 1) / sqrt 2) * q ! i \<and>
                r ! (h + i) = ((sqrt 3 + 1) / sqrt 2) * q ! (h + i)))"
proof -
  define w where "w = split s"
  define u where "u = update1 w"
  define p where "p = predict u"
  define q where "q = update2 p"
  define r where "r = normalise q"
  have len: "length w = 2 * h" "length u = 2 * h" "length p = 2 * h" "length q = 2 * h"
    using assms(1) by (simp_all add: w_def u_def p_def q_def)
  have hh: "length w div 2 = h" "length u div 2 = h" "length p div 2 = h" "length q div 2 = h"
    using len by simp_all
  have 1: "w = map (\<lambda>j. s ! (2 * j)) [0..<h] @ map (\<lambda>j. s ! (2 * j + 1)) [0..<h]"
    unfolding w_def by (rule split_eq [OF assms(1)])
  have 2: "daubechies4 w = Inr r"
    using hh(1) assms(2) by (simp add: daubechies4_def r_def q_def p_def u_def)
  have 3: "window_pass s 0 (int (length s)) = Inr r"
    using 2 by (simp add: window_pass_def slice_def w_def)
  have 4: "\<forall>i < h. u ! i = w ! i + sqrt 3 * w ! (h + i) \<and> u ! (h + i) = w ! (h + i)"
    using len(1) hh(1) by (simp add: u_def update1_nth)
  have 5: "p ! h = u ! h - (sqrt 3 / 4) * u ! 0 - ((sqrt 3 - 2) / 4) * u ! (h - 1)"
    using predict_nth [of h u] len(2) hh(2) assms(2) by (simp add: p_def)
  have 6: "\<forall>i < h. 1 \<le> i \<longrightarrow>
          p ! (h + i) = u ! (h + i) - (sqrt 3 / 4) * u ! i - ((sqrt 3 - 2) / 4) * u ! (i - 1)"
    using len(2) hh(2) assms(2) by (simp add: p_def predict_nth)
  have 7: "\<forall>i < h. p ! i = u ! i"
    using len(2) hh(2) assms(2) by (simp add: p_def predict_nth)
  have 8: "\<forall>i < h - 1. q ! i = p ! i - p ! (h + i + 1)"
    using len(3) hh(3) assms(2) by (simp add: q_def update2_nth)
  have 9: "q ! (h - 1) = p ! (h - 1) - p ! h"
    using update2_nth [of "h - 1" p] len(3) hh(3) assms(2) by (simp add: q_def)
  have 10: "\<forall>i < h. q ! (h + i) = p ! (h + i)"
  proof (intro allI impI)
    fix i assume "i < h"
    moreover have "\<not> h + i < h - 1" "h + i \<noteq> h - 1" using assms(2) by auto
    ultimately show "q ! (h + i) = p ! (h + i)"
      using update2_nth [of "h + i" p] len(3) hh(3) assms(2) by (simp add: q_def)
  qed
  have 11: "\<forall>i < h. r ! i = ((sqrt 3 - 1) / sqrt 2) * q ! i \<and>
                r ! (h + i) = ((sqrt 3 + 1) / sqrt 2) * q ! (h + i)"
    using len(4) hh(4) by (simp add: r_def normalise_nth)
  from 1 2 3 4 5 6 7 8 9 10 11 show ?thesis
    unfolding Let_def w_def [symmetric] u_def [symmetric] p_def [symmetric] q_def [symmetric]
      r_def [symmetric] by blast
qed

theorem transform_pass_witness:
  "length [1, 2, 3, 4 :: real] = 2 * 2 \<and> (0::nat) < 2 \<and> split [1, 2, 3, 4] = [1, 3, 2, 4]"
  using transform_pass [of "[1, 2, 3, 4]" 2] by (simp add: Let_def upt_rec)


section \<open>Package godsp: peaks by persistent homology\<close>

text \<open>
  The sequence is a list of reals: the model covers the sequences of finite \<open>float64\<close>
  values (no NaN, no infinity), on which \<open>>\<close> is the order of the reals.
  Indexes are Go \<open>int\<close>s.  \<open>get\<close> and \<open>put\<close> are the indexed read and
  write of a slice; outside the slice they panic, which is \<open>None\<close>.
\<close>

definition none :: int where
  "none = - 1"

record Peak =
  born :: int
  died :: int
  left :: int
  right :: int

definition newPeak :: "int \<Rightarrow> Peak" where
  "newPeak startIdx = \<lparr>born = startIdx, died = none, left = startIdx, right = startIdx\<rparr>"

record Peaks =
  peaks :: "Peak list"
  seq :: "real list"

definition get :: "'a list \<Rightarrow> int \<Rightarrow> 'a option" where
  "get xs i = (if 0 \<le> i \<and> i < int (length xs) then Some (xs ! nat i) else None)"

definition put :: "'a list \<Rightarrow> int \<Rightarrow> 'a \<Rightarrow> 'a list option" where
  "put xs i v = (if 0 \<le> i \<and> i < int (length xs) then Some (xs[nat i := v]) else None)"

text \<open>
  The body of the loop \<open>for _, idx := range indices\<close> of \<open>GetPeaks\<close>, on the
  state \<open>(peaks, idxtopeak)\<close>.  The four \<open>if\<close> statements of the source have
  conditions that exclude each other and that the bodies do not change, so they are one
  chain here.  The peaks are pointers in the source: a write through \<open>peaks[i]\<close> is
  a write to entry \<open>i\<close> of the list, and each read is made after the writes before it.
\<close>

definition sweep_step ::
  "real list \<Rightarrow> Peak list \<times> int list \<Rightarrow> int \<Rightarrow> (Peak list \<times> int list) option" where
  "sweep_step sq s idx =
     (case s of (pks, idxtopeak) \<Rightarrow> do {
        lv \<leftarrow> (if idx > 0 then get idxtopeak (idx - 1) else Some none);
        rv \<leftarrow> (if idx < int (length sq) - 1 then get idxtopeak (idx + 1) else Some none);
        let lftdone = (idx > 0 \<and> lv \<noteq> none);
        let rgtdone = (idx < int (length sq) - 1 \<and> rv \<noteq> none);
        let il = (if lftdone then lv else none);
        let ir = (if rgtdone then rv else none);
        if \<not> lftdone \<and> \<not> rgtdone then do {
          let pks1 = pks @ [newPeak idx];
          itp1 \<leftarrow> put idxtopeak idx (int (length pks1) - 1);
          Some (pks1, itp1)
        } else if lftdone \<and> \<not> rgtdone then do {
          pl \<leftarrow> get pks il;
          pks1 \<leftarrow> put pks il (pl\<lparr>right := right pl + 1\<rparr>);
          itp1 \<leftarrow> put idxtopeak idx il;
          Some (pks1, itp1)
        } else if \<not> lftdone \<and> rgtdone then do {
          pr \<leftarrow> get pks ir;
          pks1 \<leftarrow> put pks ir (pr\<lparr>left := left pr - 1\<rparr>);
          itp1 \<leftarrow> put idxtopeak idx ir;
          Some (pks1, itp1)
        } else do {
          pl \<leftarrow> get pks il;
          pr \<leftarrow> get pks ir;
          bl \<leftarrow> get sq (born pl);
          br \<leftarrow> get sq (born pr);
          if bl > br then do {
            pks1 \<leftarrow> put pks ir (pr\<lparr>died := idx\<rparr>);
            pl1 \<leftarrow> get pks1 il;
            pr1 \<leftarrow> get pks1 ir;
            pks2 \<leftarrow> put pks1 il (pl1\<lparr>right := right pr1\<rparr>);
            pl2 \<leftarrow> get pks2 il;
            itp1 \<leftarrow> put idxtopeak (right pl2) il;
            itp2 \<leftarrow> put itp1 idx il;
            Some (pks2, itp2)
          } else do {
            pks1 \<leftarrow> put pks il (pl\<lparr>died := idx\<rparr>);
            pl1 \<leftarrow> get pks1 il;
            pr1 \<leftarrow> get pks1 ir;
            pks2 \<leftarrow> put pks1 ir (pr1\<lparr>left := left pl1\<rparr>);
            pr2 \<leftarrow> get pks2 ir;
            itp1 \<leftarrow> put idxtopeak (left pr2) ir;
            itp2 \<leftarrow> put itp1 idx ir;
            Some (pks2, itp2)
          }
        }
      })"

fun sweep :: "real list \<Rightarrow> int list \<Rightarrow> Peak list \<times> int list \<Rightarrow> (Peak list \<times> int list) option" where
  "sweep sq [] s = Some s"
| "sweep sq (idx # idxs) s =
     (case sweep_step sq s idx of None \<Rightarrow> None | Some s' \<Rightarrow> sweep sq idxs s')"

text \<open>
  \<open>indices\<close>: \<open>Range(len(seq))\<close> sorted by \<open>sort.SliceStable\<close> with
  \<open>seq[indices[i]] > seq[indices[j]]\<close> as the order: descending values, equal values
  in their original order.  \<open>sort_key\<close> is a stable sort by ascending key.
\<close>

definition indices :: "real list \<Rightarrow> int list" where
  "indices sq = sort_key (\<lambda>i. - sq ! nat i) (map int [0..<length sq])"

definition sweep_init :: "real list \<Rightarrow> Peak list \<times> int list" where
  "sweep_init sq = ([], replicate (length sq) none)"

definition GetPeaks :: "real list \<Rightarrow> Peaks option" where
  "GetPeaks sq =
     (case sweep sq (indices sq) (sweep_init sq) of
        None \<Rightarrow> None
      | Some (pks, idxtopeak) \<Rightarrow> Some \<lparr>peaks = sort_key born pks, seq = sq\<rparr>)"

section \<open>The invariant of the sweep\<close>

text \<open>
  The sweep is followed through the reads \<open>get peaks\<close> and \<open>get idxtopeak\<close>
  of its two slices.  An index is assigned when \<open>idxtopeak\<close> holds a peak for it; a
  peak is live while its \<open>died\<close> is \<open>none\<close>.  The invariant: every assigned
  index lies in the span \<open>left..right\<close> of a live peak; the span of a live peak
  contains its \<open>born\<close>, is assigned throughout, cannot be extended on either side,
  and both its ends are mapped to the peak by \<open>idxtopeak\<close>; \<open>born\<close> of every
  peak, and \<open>died\<close> of every dead peak, is an index of the sequence.
\<close>

definition assigned :: "(int \<Rightarrow> int option) \<Rightarrow> int \<Rightarrow> bool" where
  "assigned gi i = (\<exists>p. gi i = Some p \<and> p \<noteq> none)"

definition live :: "(int \<Rightarrow> Peak option) \<Rightarrow> int \<Rightarrow> Peak \<Rightarrow> bool" where
  "live gp p pk = (gp p = Some pk \<and> died pk = none)"

definition span_ok :: "(int \<Rightarrow> int option) \<Rightarrow> int \<Rightarrow> Peak \<Rightarrow> bool" where
  "span_ok gi p pk =
     (left pk \<le> born pk \<and> born pk \<le> right pk \<and>
      (\<forall>i. left pk \<le> i \<and> i \<le> right pk \<longrightarrow> assigned gi i) \<and>
      \<not> assigned gi (left pk - 1) \<and> \<not> assigned gi (right pk + 1) \<and>
      gi (left pk) = Some p \<and> gi (right pk) = Some p)"

definition covered :: "(int \<Rightarrow> Peak option) \<Rightarrow> int \<Rightarrow> bool" where
  "covered gp i = (\<exists>p pk. live gp p pk \<and> left pk \<le> i \<and> i \<le> right pk)"

definition peak_ok :: "int \<Rightarrow> Peak \<Rightarrow> bool" where
  "peak_ok n pk = (0 \<le> born pk \<and> born pk < n \<and> (died pk \<noteq> none \<longrightarrow> 0 \<le> died pk \<and> died pk < n))"

definition inv :: "int \<Rightarrow> (int \<Rightarrow> Peak option) \<Rightarrow> (int \<Rightarrow> int option) \<Rightarrow> bool" where
  "inv n gp gi =
     ((\<forall>i. assigned gi i \<longrightarrow> covered gp i) \<and>
      (\<forall>p pk. live gp p pk \<longrightarrow> span_ok gi p pk) \<and>
      (\<forall>p pk. gp p = Some pk \<longrightarrow> peak_ok n pk))"

lemma inv_coveredD: "inv n gp gi \<Longrightarrow> assigned gi i \<Longrightarrow> covered gp i"
  by (simp add: inv_def)

lemma inv_spanD: "inv n gp gi \<Longrightarrow> live gp p pk \<Longrightarrow> span_ok gi p pk"
  by (simp add: inv_def)

lemma span_left_assigned: "span_ok gi p pk \<Longrightarrow> assigned gi (left pk)"
  by (simp add: span_ok_def)

lemma span_right_assigned: "span_ok gi p pk \<Longrightarrow> assigned gi (right pk)"
  by (simp add: span_ok_def)

lemma span_label_not_none: "span_ok gi p pk \<Longrightarrow> p \<noteq> none"
  by (auto simp: span_ok_def assigned_def dest!: spec [of _ "left pk"])

lemma left_neighbour:
  assumes "inv n gp gi" "assigned gi (idx - 1)" "\<not> assigned gi idx"
  obtains p pk where "live gp p pk" "right pk = idx - 1" "gi (idx - 1) = Some p"
proof -
  from inv_coveredD [OF assms(1,2)] obtain p pk where
    p: "live gp p pk" "left pk \<le> idx - 1" "idx - 1 \<le> right pk"
    by (auto simp: covered_def)
  from inv_spanD [OF assms(1) p(1)] have s: "span_ok gi p pk" .
  have "right pk < idx"
  proof (rule ccontr)
    assume "\<not> right pk < idx"
    with p(2) s have "assigned gi idx" by (simp add: span_ok_def)
    with assms(3) show False by simp
  qed
  with p(3) have r: "right pk = idx - 1" by simp
  with s have "gi (idx - 1) = Some p" by (simp add: span_ok_def)
  with p(1) r that show thesis by blast
qed

lemma right_neighbour:
  assumes "inv n gp gi" "assigned gi (idx + 1)" "\<not> assigned gi idx"
  obtains p pk where "live gp p pk" "left pk = idx + 1" "gi (idx + 1) = Some p"
proof -
  from inv_coveredD [OF assms(1,2)] obtain p pk where
    p: "live gp p pk" "left pk \<le> idx + 1" "idx + 1 \<le> right pk"
    by (auto simp: covered_def)
  from inv_spanD [OF assms(1) p(1)] have s: "span_ok gi p pk" .
  have "idx < left pk"
  proof (rule ccontr)
    assume "\<not> idx < left pk"
    with p(3) s have "assigned gi idx" by (simp add: span_ok_def)
    with assms(3) show False by simp
  qed
  with p(2) have r: "left pk = idx + 1" by simp
  with s have "gi (idx + 1) = Some p" by (simp add: span_ok_def)
  with p(1) r that show thesis by blast
qed

lemma inv_birth:
  assumes "inv n gp gi" "\<not> assigned gi idx" "\<not> assigned gi (idx - 1)" "\<not> assigned gi (idx + 1)"
    "0 \<le> idx" "idx < n" "gp k = None" "k \<noteq> none"
  shows "inv n (gp(k \<mapsto> newPeak idx)) (gi(idx \<mapsto> k))"
proof -
  let ?gp = "gp(k \<mapsto> newPeak idx)" and ?gi = "gi(idx \<mapsto> k)"
  have as: "assigned ?gi i \<longleftrightarrow> assigned gi i \<or> i = idx" for i
    using assms(8) by (auto simp: assigned_def)
  have lv: "live ?gp p pk \<longleftrightarrow> live gp p pk \<or> (p = k \<and> pk = newPeak idx)" for p pk
    using assms(7) by (auto simp: live_def newPeak_def)
  have "covered ?gp i" if "assigned ?gi i" for i
  proof (cases "i = idx")
    case True
    have "live ?gp k (newPeak idx)" by (simp add: lv)
    moreover have "left (newPeak idx) \<le> i \<and> i \<le> right (newPeak idx)"
      using True by (simp add: newPeak_def)
    ultimately show ?thesis unfolding covered_def by blast
  next
    case False
    with that as have "assigned gi i" by simp
    from inv_coveredD [OF assms(1) this] show ?thesis
      unfolding covered_def using lv by blast
  qed
  moreover have "span_ok ?gi p pk" if "live ?gp p pk" for p pk
  proof (cases "live gp p pk")
    case True
    from inv_spanD [OF assms(1) this] have s: "span_ok gi p pk" .
    have "left pk \<noteq> idx" "right pk \<noteq> idx" "left pk - 1 \<noteq> idx" "right pk + 1 \<noteq> idx"
      using span_left_assigned [OF s] span_right_assigned [OF s] assms(2,3,4) by auto
    with s show ?thesis by (auto simp: span_ok_def as)
  next
    case False
    with that lv have "p = k" "pk = newPeak idx" by auto
    then show ?thesis using assms(3,4) by (simp add: span_ok_def as newPeak_def)
  qed
  moreover have "peak_ok n pk" if "?gp p = Some pk" for p pk
    using that assms(1,5,6) by (auto simp: inv_def peak_ok_def newPeak_def split: if_splits)
  ultimately show ?thesis unfolding inv_def by blast
qed


lemma live_unique:
  assumes "inv n gp gi" "live gp p pk" "live gp q qk"
    "left pk \<le> i" "i \<le> right pk" "left qk \<le> i" "i \<le> right qk"
  shows "p = q"
proof -
  from inv_spanD [OF assms(1,2)] have sp: "span_ok gi p pk" .
  from inv_spanD [OF assms(1,3)] have sq: "span_ok gi q qk" .
  have "\<not> right pk < right qk"
  proof
    assume "right pk < right qk"
    with assms(4,5,6) sq have "assigned gi (right pk + 1)" by (simp add: span_ok_def)
    with sp show False by (simp add: span_ok_def)
  qed
  moreover have "\<not> right qk < right pk"
  proof
    assume "right qk < right pk"
    with assms(4,6,7) sp have "assigned gi (right qk + 1)" by (simp add: span_ok_def)
    with sq show False by (simp add: span_ok_def)
  qed
  ultimately have "right pk = right qk" by simp
  with sp sq show ?thesis by (simp add: span_ok_def)
qed

lemma live_same: "live gp p pk \<Longrightarrow> live gp p qk \<Longrightarrow> pk = qk"
  by (simp add: live_def)

lemma inv_absorb_left:
  assumes "inv n gp gi" "\<not> assigned gi idx" "\<not> assigned gi (idx + 1)"
    "live gp p pk" "right pk = idx - 1"
  shows "inv n (gp(p \<mapsto> pk\<lparr>right := idx\<rparr>)) (gi(idx \<mapsto> p))"
proof -
  let ?pk = "pk\<lparr>right := idx\<rparr>"
  let ?gp = "gp(p \<mapsto> ?pk)" and ?gi = "gi(idx \<mapsto> p)"
  from inv_spanD [OF assms(1,4)] have s: "span_ok gi p pk" .
  have pn: "p \<noteq> none" by (rule span_label_not_none [OF s])
  have as: "assigned ?gi i \<longleftrightarrow> assigned gi i \<or> i = idx" for i
    using pn by (auto simp: assigned_def)
  have lv: "live ?gp q qk \<longleftrightarrow> (q = p \<and> qk = ?pk) \<or> (q \<noteq> p \<and> live gp q qk)" for q qk
    using assms(4) by (auto simp: live_def)
  have "covered ?gp i" if "assigned ?gi i" for i
  proof (cases "i = idx")
    case True
    have "live ?gp p ?pk" by (simp add: lv)
    moreover have "left ?pk \<le> i \<and> i \<le> right ?pk"
      using True s assms(5) by (simp add: span_ok_def)
    ultimately show ?thesis unfolding covered_def by blast
  next
    case False
    with that as have "assigned gi i" by simp
    from inv_coveredD [OF assms(1) this] obtain q qk where
      q: "live gp q qk" "left qk \<le> i" "i \<le> right qk" by (auto simp: covered_def)
    show ?thesis
    proof (cases "q = p")
      case True
      with q(1) assms(4) have "qk = pk" by (simp add: live_def)
      with q(2,3) assms(5) have "left ?pk \<le> i \<and> i \<le> right ?pk" by simp
      moreover have "live ?gp p ?pk" by (simp add: lv)
      ultimately show ?thesis unfolding covered_def by blast
    next
      case False
      with q(1) have "live ?gp q qk" by (simp add: lv)
      with q(2,3) show ?thesis unfolding covered_def by blast
    qed
  qed
  moreover have "span_ok ?gi q qk" if "live ?gp q qk" for q qk
  proof (cases "q = p")
    case True
    with that lv have "qk = ?pk" by simp
    then show ?thesis using True s assms(3,5) by (auto simp: span_ok_def as)
  next
    case False
    with that lv have l: "live gp q qk" by simp
    from inv_spanD [OF assms(1) this] have sq: "span_ok gi q qk" .
    have "right qk \<noteq> idx - 1"
    proof
      assume e: "right qk = idx - 1"
      have "left qk \<le> right qk" "left pk \<le> right pk" using sq s by (simp_all add: span_ok_def)
      with live_unique [OF assms(1) l assms(4), of "idx - 1"] e assms(5) False
      show False by simp
    qed
    moreover have "left qk \<noteq> idx" "right qk \<noteq> idx" "left qk - 1 \<noteq> idx"
      using span_left_assigned [OF sq] span_right_assigned [OF sq] assms(2,3) by auto
    ultimately show ?thesis using sq by (auto simp: span_ok_def as)
  qed
  moreover have "peak_ok n qk" if "?gp q = Some qk" for q qk
    using that assms(1,4) by (auto simp: inv_def peak_ok_def live_def split: if_splits)
  ultimately show ?thesis unfolding inv_def by blast
qed

lemma inv_absorb_right:
  assumes "inv n gp gi" "\<not> assigned gi idx" "\<not> assigned gi (idx - 1)"
    "live gp p pk" "left pk = idx + 1"
  shows "inv n (gp(p \<mapsto> pk\<lparr>left := idx\<rparr>)) (gi(idx \<mapsto> p))"
proof -
  let ?pk = "pk\<lparr>left := idx\<rparr>"
  let ?gp = "gp(p \<mapsto> ?pk)" and ?gi = "gi(idx \<mapsto> p)"
  from inv_spanD [OF assms(1,4)] have s: "span_ok gi p pk" .
  have pn: "p \<noteq> none" by (rule span_label_not_none [OF s])
  have as: "assigned ?gi i \<longleftrightarrow> assigned gi i \<or> i = idx" for i
    using pn by (auto simp: assigned_def)
  have lv: "live ?gp q qk \<longleftrightarrow> (q = p \<and> qk = ?pk) \<or> (q \<noteq> p \<and> live gp q qk)" for q qk
    using assms(4) by (auto simp: live_def)
  have "covered ?gp i" if "assigned ?gi i" for i
  proof (cases "i = idx")
    case True
    have "live ?gp p ?pk" by (simp add: lv)
    moreover have "left ?pk \<le> i \<and> i \<le> right ?pk"
      using True s assms(5) by (simp add: span_ok_def)
    ultimately show ?thesis unfolding covered_def by blast
  next
    case False
    with that as have "assigned gi i" by simp
    from inv_coveredD [OF assms(1) this] obtain q qk where
      q: "live gp q qk" "left qk \<le> i" "i \<le> right qk" by (auto simp: covered_def)
    show ?thesis
    proof (cases "q = p")
      case True
      with q(1) assms(4) have "qk = pk" by (simp add: live_def)
      with q(2,3) assms(5) have "left ?pk \<le> i \<and> i \<le> right ?pk" by simp
      moreover have "live ?gp p ?pk" by (simp add: lv)
      ultimately show ?thesis unfolding covered_def by blast
    next
      case False
      with q(1) have "live ?gp q qk" by (simp add: lv)
      with q(2,3) show ?thesis unfolding covered_def by blast
    qed
  qed
  moreover have "span_ok ?gi q qk" if "live ?gp q qk" for q qk
  proof (cases "q = p")
    case True
    with that lv have "qk = ?pk" by simp
    then show ?thesis using True s assms(3,5) by (auto simp: span_ok_def as)
  next
    case False
    with that lv have l: "live gp q qk" by simp
    from inv_spanD [OF assms(1) this] have sq: "span_ok gi q qk" .
    have "left qk \<noteq> idx + 1"
    proof
      assume e: "left qk = idx + 1"
      have "left qk \<le> right qk" "left pk \<le> right pk" using sq s by (simp_all add: span_ok_def)
      with live_unique [OF assms(1) l assms(4), of "idx + 1"] e assms(5) False
      show False by simp
    qed
    moreover have "left qk \<noteq> idx" "right qk \<noteq> idx" "right qk + 1 \<noteq> idx"
      using span_left_assigned [OF sq] span_right_assigned [OF sq] assms(2,3) by auto
    ultimately show ?thesis using sq by (auto simp: span_ok_def as)
  qed
  moreover have "peak_ok n qk" if "?gp q = Some qk" for q qk
    using that assms(1,4) by (auto simp: inv_def peak_ok_def live_def split: if_splits)
  ultimately show ?thesis unfolding inv_def by blast
qed


lemma inv_merge_left:
  assumes "inv n gp gi" "\<not> assigned gi idx" "live gp p pk" "right pk = idx - 1"
    "live gp q qk" "left qk = idx + 1" "0 \<le> idx" "idx < n"
  shows "inv n (gp(q \<mapsto> qk\<lparr>died := idx\<rparr>, p \<mapsto> pk\<lparr>right := right qk\<rparr>))
               (gi(right qk \<mapsto> p, idx \<mapsto> p))"
proof -
  let ?pk = "pk\<lparr>right := right qk\<rparr>" and ?qk = "qk\<lparr>died := idx\<rparr>"
  let ?gp = "gp(q \<mapsto> ?qk, p \<mapsto> ?pk)" and ?gi = "gi(right qk \<mapsto> p, idx \<mapsto> p)"
  from inv_spanD [OF assms(1,3)] have sp: "span_ok gi p pk" .
  from inv_spanD [OF assms(1,5)] have sq: "span_ok gi q qk" .
  have ord: "left pk \<le> right pk" "left qk \<le> right qk"
    using sp sq by (simp_all add: span_ok_def)
  have pq: "p \<noteq> q"
  proof
    assume "p = q"
    with assms(3,5) have "pk = qk" by (simp add: live_def)
    with ord assms(4,6) show False by simp
  qed
  have pn: "p \<noteq> none" by (rule span_label_not_none [OF sp])
  have dn: "idx \<noteq> none" using assms(7) by (simp add: none_def)
  have as: "assigned ?gi i \<longleftrightarrow> assigned gi i \<or> i = idx" for i
    using pn span_right_assigned [OF sq] by (auto simp: assigned_def)
  have lv: "live ?gp r rk \<longleftrightarrow> (r = p \<and> rk = ?pk) \<or> (r \<noteq> p \<and> r \<noteq> q \<and> live gp r rk)"
    for r rk
    using assms(3,5) pq dn by (auto simp: live_def)
  have lp: "live ?gp p ?pk" by (simp add: lv)
  have "covered ?gp i" if "assigned ?gi i" for i
  proof (cases "i = idx")
    case True
    have "left ?pk \<le> i \<and> i \<le> right ?pk" using True ord assms(4,6) by simp
    with lp show ?thesis unfolding covered_def by blast
  next
    case False
    with that as have "assigned gi i" by simp
    from inv_coveredD [OF assms(1) this] obtain r rk where
      r: "live gp r rk" "left rk \<le> i" "i \<le> right rk" by (auto simp: covered_def)
    consider "r = p" | "r = q" | "r \<noteq> p" "r \<noteq> q" by blast
    then show ?thesis
    proof cases
      case 1
      with r(1) assms(3) have "rk = pk" by (simp add: live_def)
      with r(2,3) ord assms(4,6) have "left ?pk \<le> i \<and> i \<le> right ?pk" by simp
      with lp show ?thesis unfolding covered_def by blast
    next
      case 2
      with r(1) assms(5) have "rk = qk" by (simp add: live_def)
      with r(2,3) ord assms(4,6) have "left ?pk \<le> i \<and> i \<le> right ?pk" by simp
      with lp show ?thesis unfolding covered_def by blast
    next
      case 3
      with r(1) have "live ?gp r rk" by (simp add: lv)
      with r(2,3) show ?thesis unfolding covered_def by blast
    qed
  qed
  moreover have "span_ok ?gi r rk" if "live ?gp r rk" for r rk
  proof (cases "r = p")
    case True
    with that lv have rk: "rk = ?pk" by simp
    have "assigned ?gi i" if "left pk \<le> i" "i \<le> right qk" for i
    proof -
      consider "i \<le> right pk" | "i = idx" | "left qk \<le> i" using assms(4,6) by linarith
      then show ?thesis using that sp sq by cases (auto simp: span_ok_def as)
    qed
    then show ?thesis using rk True sp sq ord assms(4,6) by (auto simp: span_ok_def as)
  next
    case False
    with that lv have l: "live gp r rk" and rq: "r \<noteq> q" by simp_all
    from inv_spanD [OF assms(1) l] have sr: "span_ok gi r rk" .
    have o: "left rk \<le> right rk" using sr by (simp add: span_ok_def)
    have a: "\<not> (left rk \<le> i \<and> i \<le> right rk)" if "left pk \<le> i" "i \<le> right pk" for i
      using live_unique [OF assms(1) l assms(3), of i] that False by auto
    have b: "\<not> (left rk \<le> i \<and> i \<le> right rk)" if "left qk \<le> i" "i \<le> right qk" for i
      using live_unique [OF assms(1) l assms(5), of i] that rq by auto
    have "right rk \<noteq> idx - 1" using a [of "right pk"] o ord assms(4) by auto
    moreover have "left rk \<noteq> idx + 1" using b [of "left qk"] o ord assms(6) by auto
    moreover have "left rk \<noteq> right qk" "right rk \<noteq> right qk"
      using b [of "right qk"] o ord by auto
    moreover have "left rk \<noteq> idx" "right rk \<noteq> idx"
      using span_left_assigned [OF sr] span_right_assigned [OF sr] assms(2) by auto
    ultimately show ?thesis using sr by (auto simp: span_ok_def as)
  qed
  moreover have "peak_ok n rk" if "?gp r = Some rk" for r rk
    using that assms(1,3,5,7,8) by (auto simp: inv_def peak_ok_def live_def split: if_splits)
  ultimately show ?thesis unfolding inv_def by blast
qed

lemma inv_merge_right:
  assumes "inv n gp gi" "\<not> assigned gi idx" "live gp p pk" "right pk = idx - 1"
    "live gp q qk" "left qk = idx + 1" "0 \<le> idx" "idx < n"
  shows "inv n (gp(p \<mapsto> pk\<lparr>died := idx\<rparr>, q \<mapsto> qk\<lparr>left := left pk\<rparr>))
               (gi(left pk \<mapsto> q, idx \<mapsto> q))"
proof -
  let ?qk = "qk\<lparr>left := left pk\<rparr>" and ?pk = "pk\<lparr>died := idx\<rparr>"
  let ?gp = "gp(p \<mapsto> ?pk, q \<mapsto> ?qk)" and ?gi = "gi(left pk \<mapsto> q, idx \<mapsto> q)"
  from inv_spanD [OF assms(1,3)] have sp: "span_ok gi p pk" .
  from inv_spanD [OF assms(1,5)] have sq: "span_ok gi q qk" .
  have ord: "left pk \<le> right pk" "left qk \<le> right qk"
    using sp sq by (simp_all add: span_ok_def)
  have pq: "p \<noteq> q"
  proof
    assume "p = q"
    with assms(3,5) have "pk = qk" by (simp add: live_def)
    with ord assms(4,6) show False by simp
  qed
  have qn: "q \<noteq> none" by (rule span_label_not_none [OF sq])
  have dn: "idx \<noteq> none" using assms(7) by (simp add: none_def)
  have as: "assigned ?gi i \<longleftrightarrow> assigned gi i \<or> i = idx" for i
    using qn span_left_assigned [OF sp] by (auto simp: assigned_def)
  have lv: "live ?gp r rk \<longleftrightarrow> (r = q \<and> rk = ?qk) \<or> (r \<noteq> p \<and> r \<noteq> q \<and> live gp r rk)"
    for r rk
    using assms(3,5) pq dn by (auto simp: live_def)
  have lq: "live ?gp q ?qk" by (simp add: lv)
  have "covered ?gp i" if "assigned ?gi i" for i
  proof (cases "i = idx")
    case True
    have "left ?qk \<le> i \<and> i \<le> right ?qk" using True ord assms(4,6) by simp
    with lq show ?thesis unfolding covered_def by blast
  next
    case False
    with that as have "assigned gi i" by simp
    from inv_coveredD [OF assms(1) this] obtain r rk where
      r: "live gp r rk" "left rk \<le> i" "i \<le> right rk" by (auto simp: covered_def)
    consider "r = p" | "r = q" | "r \<noteq> p" "r \<noteq> q" by blast
    then show ?thesis
    proof cases
      case 1
      with r(1) assms(3) have "rk = pk" by (simp add: live_def)
      with r(2,3) ord assms(4,6) have "left ?qk \<le> i \<and> i \<le> right ?qk" by simp
      with lq show ?thesis unfolding covered_def by blast
    next
      case 2
      with r(1) assms(5) have "rk = qk" by (simp add: live_def)
      with r(2,3) ord assms(4,6) have "left ?qk \<le> i \<and> i \<le> right ?qk" by simp
      with lq show ?thesis unfolding covered_def by blast
    next
      case 3
      with r(1) have "live ?gp r rk" by (simp add: lv)
      with r(2,3) show ?thesis unfolding covered_def by blast
    qed
  qed
  moreover have "span_ok ?gi r rk" if "live ?gp r rk" for r rk
  proof (cases "r = q")
    case True
    with that lv have rk: "rk = ?qk" by simp
    have "assigned ?gi i" if "left pk \<le> i" "i \<le> right qk" for i
    proof -
      consider "i \<le> right pk" | "i = idx" | "left qk \<le> i" using assms(4,6) by linarith
      then show ?thesis using that sp sq by cases (auto simp: span_ok_def as)
    qed
    then show ?thesis using rk True sp sq ord assms(4,6) by (auto simp: span_ok_def as)
  next
    case False
    with that lv have l: "live gp r rk" and rp: "r \<noteq> p" by simp_all
    from inv_spanD [OF assms(1) l] have sr: "span_ok gi r rk" .
    have o: "left rk \<le> right rk" using sr by (simp add: span_ok_def)
    have a: "\<not> (left rk \<le> i \<and> i \<le> right rk)" if "left pk \<le> i" "i \<le> right pk" for i
      using live_unique [OF assms(1) l assms(3), of i] that rp by auto
    have b: "\<not> (left rk \<le> i \<and> i \<le> right rk)" if "left qk \<le> i" "i \<le> right qk" for i
      using live_unique [OF assms(1) l assms(5), of i] that False by auto
    have "right rk \<noteq> idx - 1" using a [of "right pk"] o ord assms(4) by auto
    moreover have "left rk \<noteq> idx + 1" using b [of "left qk"] o ord assms(6) by auto
    moreover have "left rk \<noteq> left pk" "right rk \<noteq> left pk"
      using a [of "left pk"] o ord by auto
    moreover have "left rk \<noteq> idx" "right rk \<noteq> idx"
      using span_left_assigned [OF sr] span_right_assigned [OF sr] assms(2) by auto
    ultimately show ?thesis using sr by (auto simp: span_ok_def as)
  qed
  moreover have "peak_ok n rk" if "?gp r = Some rk" for r rk
    using that assms(1,3,5,7,8) by (auto simp: inv_def peak_ok_def live_def split: if_splits)
  ultimately show ?thesis unfolding inv_def by blast
qed


lemma get_put: "put xs i v = Some ys \<Longrightarrow> get ys = (get xs)(i \<mapsto> v)"
  by (rule ext) (auto simp: get_def put_def split: if_splits)

lemma length_put: "put xs i v = Some ys \<Longrightarrow> length ys = length xs"
  by (auto simp: put_def split: if_splits)

lemma put_eq: "0 \<le> i \<Longrightarrow> i < int (length xs) \<Longrightarrow> put xs i v = Some (xs[nat i := v])"
  by (simp add: put_def)

lemma get_range: "get xs i = Some x \<Longrightarrow> 0 \<le> i \<and> i < int (length xs)"
  by (auto simp: get_def split: if_splits)

lemma get_snoc: "get (xs @ [x]) = (get xs)(int (length xs) \<mapsto> x)"
  by (rule ext) (auto simp: get_def nth_append)

lemma get_length_None: "get xs (int (length xs)) = None"
  by (simp add: get_def)

lemma get_update: "0 \<le> i \<Longrightarrow> i < int (length xs) \<Longrightarrow> get (xs[nat i := v]) = (get xs)(i \<mapsto> v)"
  using get_put [of xs i v] by (simp add: put_def)

lemma assigned_range: "assigned (get xs) i \<Longrightarrow> 0 \<le> i \<and> i < int (length xs)"
  by (auto simp: assigned_def dest: get_range)

definition sweep_inv :: "real list \<Rightarrow> Peak list \<times> int list \<Rightarrow> bool" where
  "sweep_inv sq s = (case s of (pks, itp) \<Rightarrow>
      length itp = length sq \<and> inv (int (length sq)) (get pks) (get itp))"

lemma left_read:
  assumes "length itp = length sq" "0 \<le> idx" "idx < int (length sq)"
  obtains lv where "(if idx > 0 then get itp (idx - 1) else Some none) = Some lv"
    and "(idx > 0 \<and> lv \<noteq> none) = assigned (get itp) (idx - 1)"
    and "assigned (get itp) (idx - 1) \<Longrightarrow> get itp (idx - 1) = Some lv"
proof (cases "idx > 0")
  case True
  then have "get itp (idx - 1) = Some (itp ! nat (idx - 1))"
    using assms by (simp add: get_def)
  with True that [of "itp ! nat (idx - 1)"] show thesis by (simp add: assigned_def)
next
  case False
  then have "get itp (idx - 1) = None" by (simp add: get_def)
  with False that [of none] show thesis by (simp add: assigned_def)
qed

lemma right_read:
  assumes "length itp = length sq" "0 \<le> idx" "idx < int (length sq)"
  obtains rv where "(if idx < int (length sq) - 1 then get itp (idx + 1) else Some none) = Some rv"
    and "(idx < int (length sq) - 1 \<and> rv \<noteq> none) = assigned (get itp) (idx + 1)"
    and "assigned (get itp) (idx + 1) \<Longrightarrow> get itp (idx + 1) = Some rv"
proof (cases "idx < int (length sq) - 1")
  case True
  then have "get itp (idx + 1) = Some (itp ! nat (idx + 1))"
    using assms by (simp add: get_def)
  with True that [of "itp ! nat (idx + 1)"] show thesis by (simp add: assigned_def)
next
  case False
  then have "get itp (idx + 1) = None" using assms by (simp add: get_def)
  with False that [of none] show thesis by (simp add: assigned_def)
qed

lemma sweep_step_birth:
  assumes "length itp = length sq" "0 \<le> idx" "idx < int (length sq)"
    "\<not> assigned (get itp) (idx - 1)" "\<not> assigned (get itp) (idx + 1)"
  shows "sweep_step sq (pks, itp) idx = Some (pks @ [newPeak idx], itp[nat idx := int (length pks)])"
proof -
  obtain lv where lv: "(if idx > 0 then get itp (idx - 1) else Some none) = Some lv"
    "(idx > 0 \<and> lv \<noteq> none) = assigned (get itp) (idx - 1)"
    using left_read [OF assms(1,2,3)] by metis
  obtain rv where rv: "(if idx < int (length sq) - 1 then get itp (idx + 1) else Some none) = Some rv"
    "(idx < int (length sq) - 1 \<and> rv \<noteq> none) = assigned (get itp) (idx + 1)"
    using right_read [OF assms(1,2,3)] by metis
  have "put itp idx (int (length pks)) = Some (itp[nat idx := int (length pks)])"
    using assms(1,2,3) by (simp add: put_eq)
  then show ?thesis
    unfolding sweep_step_def using assms(4,5) by (simp add: lv rv Let_def)
qed

lemma sweep_step_absorb_left:
  assumes "length itp = length sq" "0 \<le> idx" "idx < int (length sq)"
    "get itp (idx - 1) = Some il" "il \<noteq> none" "\<not> assigned (get itp) (idx + 1)"
    "get pks il = Some pl"
  shows "sweep_step sq (pks, itp) idx =
     Some (pks[nat il := pl\<lparr>right := right pl + 1\<rparr>], itp[nat idx := il])"
proof -
  have a: "assigned (get itp) (idx - 1)" using assms(4,5) by (auto simp: assigned_def)
  obtain lv where lv: "(if idx > 0 then get itp (idx - 1) else Some none) = Some lv"
    "(idx > 0 \<and> lv \<noteq> none) = assigned (get itp) (idx - 1)"
    "assigned (get itp) (idx - 1) \<Longrightarrow> get itp (idx - 1) = Some lv"
    using left_read [OF assms(1,2,3)] by metis
  obtain rv where rv: "(if idx < int (length sq) - 1 then get itp (idx + 1) else Some none) = Some rv"
    "(idx < int (length sq) - 1 \<and> rv \<noteq> none) = assigned (get itp) (idx + 1)"
    using right_read [OF assms(1,2,3)] by metis
  have il: "lv = il" using lv(3) [OF a] assms(4) by simp
  have "put itp idx il = Some (itp[nat idx := il])"
    using assms(1,2,3) by (simp add: put_eq)
  moreover have "put pks il (pl\<lparr>right := right pl + 1\<rparr>) = Some (pks[nat il := pl\<lparr>right := right pl + 1\<rparr>])"
    using get_range [OF assms(7)] by (simp add: put_eq)
  moreover have "0 < idx" using get_range [OF assms(4)] by simp
  moreover have "(idx < int (length sq) - 1 \<and> rv \<noteq> none) = False" using rv(2) assms(6) by simp
  ultimately show ?thesis
    unfolding sweep_step_def using assms(5,7) il lv(1) rv(1) by (simp add: Let_def)
qed

lemma sweep_step_absorb_right:
  assumes "length itp = length sq" "0 \<le> idx" "idx < int (length sq)"
    "get itp (idx + 1) = Some ir" "ir \<noteq> none" "\<not> assigned (get itp) (idx - 1)"
    "get pks ir = Some pr"
  shows "sweep_step sq (pks, itp) idx =
     Some (pks[nat ir := pr\<lparr>left := left pr - 1\<rparr>], itp[nat idx := ir])"
proof -
  have a: "assigned (get itp) (idx + 1)" using assms(4,5) by (auto simp: assigned_def)
  obtain lv where lv: "(if idx > 0 then get itp (idx - 1) else Some none) = Some lv"
    "(idx > 0 \<and> lv \<noteq> none) = assigned (get itp) (idx - 1)"
    using left_read [OF assms(1,2,3)] by metis
  obtain rv where rv: "(if idx < int (length sq) - 1 then get itp (idx + 1) else Some none) = Some rv"
    "(idx < int (length sq) - 1 \<and> rv \<noteq> none) = assigned (get itp) (idx + 1)"
    "assigned (get itp) (idx + 1) \<Longrightarrow> get itp (idx + 1) = Some rv"
    using right_read [OF assms(1,2,3)] by metis
  have ir: "rv = ir" using rv(3) [OF a] assms(4) by simp
  have "put itp idx ir = Some (itp[nat idx := ir])"
    using assms(1,2,3) by (simp add: put_eq)
  moreover have "put pks ir (pr\<lparr>left := left pr - 1\<rparr>) = Some (pks[nat ir := pr\<lparr>left := left pr - 1\<rparr>])"
    using get_range [OF assms(7)] by (simp add: put_eq)
  moreover have "idx < int (length sq) - 1" using get_range [OF assms(4)] assms(1) by simp
  moreover have "(idx > 0 \<and> lv \<noteq> none) = False" using lv(2) assms(6) by simp
  ultimately show ?thesis
    unfolding sweep_step_def using assms(5,7) ir lv(1) rv(1) by (simp add: Let_def)
qed

lemma sweep_step_merge:
  assumes "length itp = length sq" "0 \<le> idx" "idx < int (length sq)"
    "get itp (idx - 1) = Some il" "il \<noteq> none" "get itp (idx + 1) = Some ir" "ir \<noteq> none"
    "get pks il = Some pl" "get pks ir = Some pr" "il \<noteq> ir"
    "get sq (born pl) = Some bl" "get sq (born pr) = Some br"
    "0 \<le> left pl" "left pl < int (length sq)" "0 \<le> right pr" "right pr < int (length sq)"
  shows "sweep_step sq (pks, itp) idx =
     Some (if bl > br
           then (pks[nat ir := pr\<lparr>died := idx\<rparr>, nat il := pl\<lparr>right := right pr\<rparr>],
                 itp[nat (right pr) := il, nat idx := il])
           else (pks[nat il := pl\<lparr>died := idx\<rparr>, nat ir := pr\<lparr>left := left pl\<rparr>],
                 itp[nat (left pl) := ir, nat idx := ir]))"
proof -
  have a: "assigned (get itp) (idx - 1)" "assigned (get itp) (idx + 1)"
    using assms(4,5,6,7) by (auto simp: assigned_def)
  obtain lv where lv: "(if idx > 0 then get itp (idx - 1) else Some none) = Some lv"
    "(idx > 0 \<and> lv \<noteq> none) = assigned (get itp) (idx - 1)"
    "assigned (get itp) (idx - 1) \<Longrightarrow> get itp (idx - 1) = Some lv"
    using left_read [OF assms(1,2,3)] by metis
  obtain rv where rv: "(if idx < int (length sq) - 1 then get itp (idx + 1) else Some none) = Some rv"
    "(idx < int (length sq) - 1 \<and> rv \<noteq> none) = assigned (get itp) (idx + 1)"
    "assigned (get itp) (idx + 1) \<Longrightarrow> get itp (idx + 1) = Some rv"
    using right_read [OF assms(1,2,3)] by metis
  have il: "lv = il" using lv(3) [OF a(1)] assms(4) by simp
  have ir: "rv = ir" using rv(3) [OF a(2)] assms(6) by simp
  note rl = get_range [OF assms(8)] and rr = get_range [OF assms(9)]
  have ne: "nat il \<noteq> nat ir" using rl rr assms(10) by (simp add: eq_nat_nat_iff)
  have p1: "put pks ir (pr\<lparr>died := idx\<rparr>) = Some (pks[nat ir := pr\<lparr>died := idx\<rparr>])"
    and p2: "put pks il (pl\<lparr>died := idx\<rparr>) = Some (pks[nat il := pl\<lparr>died := idx\<rparr>])"
    using rl rr by (simp_all add: put_eq)
  have g1: "get (pks[nat ir := pr\<lparr>died := idx\<rparr>]) il = Some pl"
    "get (pks[nat ir := pr\<lparr>died := idx\<rparr>]) ir = Some (pr\<lparr>died := idx\<rparr>)"
    "get (pks[nat il := pl\<lparr>died := idx\<rparr>]) il = Some (pl\<lparr>died := idx\<rparr>)"
    "get (pks[nat il := pl\<lparr>died := idx\<rparr>]) ir = Some pr"
    using rl rr assms(8,9,10) by (simp_all add: get_update)
  have p3: "put (pks[nat ir := pr\<lparr>died := idx\<rparr>]) il (pl\<lparr>right := right pr\<rparr>) =
      Some (pks[nat ir := pr\<lparr>died := idx\<rparr>, nat il := pl\<lparr>right := right pr\<rparr>])"
    and p4: "put (pks[nat il := pl\<lparr>died := idx\<rparr>]) ir (pr\<lparr>left := left pl\<rparr>) =
      Some (pks[nat il := pl\<lparr>died := idx\<rparr>, nat ir := pr\<lparr>left := left pl\<rparr>])"
    using rl rr by (simp_all add: put_eq)
  have g2: "get (pks[nat ir := pr\<lparr>died := idx\<rparr>, nat il := pl\<lparr>right := right pr\<rparr>]) il =
      Some (pl\<lparr>right := right pr\<rparr>)"
    "get (pks[nat il := pl\<lparr>died := idx\<rparr>, nat ir := pr\<lparr>left := left pl\<rparr>]) ir =
      Some (pr\<lparr>left := left pl\<rparr>)"
    using rl rr by (simp_all add: get_update)
  have i1: "put itp (right pr) il = Some (itp[nat (right pr) := il])"
    "put itp (left pl) ir = Some (itp[nat (left pl) := ir])"
    "put (itp[nat (right pr) := il]) idx il = Some (itp[nat (right pr) := il, nat idx := il])"
    "put (itp[nat (left pl) := ir]) idx ir = Some (itp[nat (left pl) := ir, nat idx := ir])"
    using assms(1,2,3,13,14,15,16) by (simp_all add: put_eq)
  have "0 < idx" using get_range [OF assms(4)] by simp
  moreover have "idx < int (length sq) - 1" using get_range [OF assms(6)] assms(1) by simp
  ultimately show ?thesis
    unfolding sweep_step_def using assms(5,7,8,9,11,12) il ir lv(1) rv(1)
    by (simp add: p1 p2 p3 p4 g1 g2 i1 Let_def)
qed


lemma assigned_upd:
  "v \<noteq> none \<Longrightarrow> assigned (gi(idx \<mapsto> v)) i \<longleftrightarrow> assigned gi i \<or> i = idx"
  by (auto simp: assigned_def)

lemma assigned_upd2:
  "v \<noteq> none \<Longrightarrow> assigned gi j \<Longrightarrow>
     assigned (gi(j \<mapsto> v, idx \<mapsto> v)) i \<longleftrightarrow> assigned gi i \<or> i = idx"
  by (auto simp: assigned_def)

lemma peak_ok_get:
  assumes "inv (int (length sq)) gp gi" "gp p = Some pk"
  shows "get sq (born pk) = Some (sq ! nat (born pk))"
  using assms by (auto simp: inv_def peak_ok_def get_def)

text \<open>What one step of the sweep does, case by case, on a state that satisfies the invariant.\<close>

datatype step_kind = Birth | AbsorbLeft | AbsorbRight | Merge

definition step_kind_of :: "int list \<Rightarrow> int \<Rightarrow> step_kind" where
  "step_kind_of itp idx =
     (if assigned (get itp) (idx - 1)
      then (if assigned (get itp) (idx + 1) then Merge else AbsorbLeft)
      else (if assigned (get itp) (idx + 1) then AbsorbRight else Birth))"

lemma sweep_step_inv:
  assumes "sweep_inv sq (pks, itp)" "0 \<le> idx" "idx < int (length sq)" "\<not> assigned (get itp) idx"
  shows "\<exists>pks' itp'. sweep_step sq (pks, itp) idx = Some (pks', itp') \<and>
           sweep_inv sq (pks', itp') \<and>
           (\<forall>i. assigned (get itp') i \<longleftrightarrow> assigned (get itp) i \<or> i = idx) \<and>
           (step_kind_of itp idx = Birth \<longrightarrow> pks' = pks @ [newPeak idx]) \<and>
           (step_kind_of itp idx \<noteq> Birth \<longrightarrow> map born pks' = map born pks) \<and>
           (step_kind_of itp idx \<in> {AbsorbLeft, AbsorbRight} \<longrightarrow> map died pks' = map died pks)"
proof -
  let ?n = "int (length sq)"
  from assms(1) have len: "length itp = length sq" and I: "inv ?n (get pks) (get itp)"
    by (simp_all add: sweep_inv_def)
  have ir: "0 \<le> idx \<and> idx < int (length itp)" using assms(2,3) len by simp
  consider (birth) "\<not> assigned (get itp) (idx - 1)" "\<not> assigned (get itp) (idx + 1)"
    | (left) "assigned (get itp) (idx - 1)" "\<not> assigned (get itp) (idx + 1)"
    | (right) "\<not> assigned (get itp) (idx - 1)" "assigned (get itp) (idx + 1)"
    | (merge) "assigned (get itp) (idx - 1)" "assigned (get itp) (idx + 1)"
    by blast
  then show ?thesis
  proof cases
    case birth
    let ?k = "int (length pks)"
    have k: "?k \<noteq> none" by (simp add: none_def)
    have st: "sweep_step sq (pks, itp) idx = Some (pks @ [newPeak idx], itp[nat idx := ?k])"
      by (rule sweep_step_birth [OF len assms(2,3) birth])
    have g: "get (itp[nat idx := ?k]) = (get itp)(idx \<mapsto> ?k)"
      "get (pks @ [newPeak idx]) = (get pks)(?k \<mapsto> newPeak idx)"
      using ir by (simp_all add: get_update get_snoc)
    have "inv ?n ((get pks)(?k \<mapsto> newPeak idx)) ((get itp)(idx \<mapsto> ?k))"
      by (rule inv_birth [OF I assms(4) birth assms(2,3) get_length_None k])
    then have "sweep_inv sq (pks @ [newPeak idx], itp[nat idx := ?k])"
      using len by (simp add: sweep_inv_def g)
    then show ?thesis using st birth k by (simp add: g assigned_upd step_kind_of_def)
  next
    case left
    from left_neighbour [OF I left(1) assms(4)] obtain il pl where
      p: "live (get pks) il pl" "right pl = idx - 1" "get itp (idx - 1) = Some il" by blast
    have n: "il \<noteq> none" using span_label_not_none [OF inv_spanD [OF I p(1)]] .
    have gp: "get pks il = Some pl" using p(1) by (simp add: live_def)
    let ?pks = "pks[nat il := pl\<lparr>right := right pl + 1\<rparr>]" and ?itp = "itp[nat idx := il]"
    have st: "sweep_step sq (pks, itp) idx = Some (?pks, ?itp)"
      by (rule sweep_step_absorb_left [OF len assms(2,3) p(3) n left(2) gp])
    have g: "get ?itp = (get itp)(idx \<mapsto> il)"
      "get ?pks = (get pks)(il \<mapsto> pl\<lparr>right := idx\<rparr>)"
      using ir get_range [OF gp] p(2) by (simp_all add: get_update)
    have "inv ?n ((get pks)(il \<mapsto> pl\<lparr>right := idx\<rparr>)) ((get itp)(idx \<mapsto> il))"
      by (rule inv_absorb_left [OF I assms(4) left(2) p(1,2)])
    then have "sweep_inv sq (?pks, ?itp)" using len by (simp add: sweep_inv_def g)
    moreover have "map born ?pks = map born pks" "map died ?pks = map died pks"
      using gp by (auto simp: get_def map_update list_update_same_conv split: if_splits)
    ultimately show ?thesis using st left n by (simp add: g(1) assigned_upd step_kind_of_def)
  next
    case right
    from right_neighbour [OF I right(2) assms(4)] obtain ir' pr where
      p: "live (get pks) ir' pr" "left pr = idx + 1" "get itp (idx + 1) = Some ir'" by blast
    have n: "ir' \<noteq> none" using span_label_not_none [OF inv_spanD [OF I p(1)]] .
    have gp: "get pks ir' = Some pr" using p(1) by (simp add: live_def)
    let ?pks = "pks[nat ir' := pr\<lparr>left := left pr - 1\<rparr>]" and ?itp = "itp[nat idx := ir']"
    have st: "sweep_step sq (pks, itp) idx = Some (?pks, ?itp)"
      by (rule sweep_step_absorb_right [OF len assms(2,3) p(3) n right(1) gp])
    have g: "get ?itp = (get itp)(idx \<mapsto> ir')"
      "get ?pks = (get pks)(ir' \<mapsto> pr\<lparr>left := idx\<rparr>)"
      using ir get_range [OF gp] p(2) by (simp_all add: get_update)
    have "inv ?n ((get pks)(ir' \<mapsto> pr\<lparr>left := idx\<rparr>)) ((get itp)(idx \<mapsto> ir'))"
      by (rule inv_absorb_right [OF I assms(4) right(1) p(1,2)])
    then have "sweep_inv sq (?pks, ?itp)" using len by (simp add: sweep_inv_def g)
    moreover have "map born ?pks = map born pks" "map died ?pks = map died pks"
      using gp by (auto simp: get_def map_update list_update_same_conv split: if_splits)
    ultimately show ?thesis using st right n by (simp add: g(1) assigned_upd step_kind_of_def)
  next
    case merge
    from left_neighbour [OF I merge(1) assms(4)] obtain il pl where
      p: "live (get pks) il pl" "right pl = idx - 1" "get itp (idx - 1) = Some il" by blast
    from right_neighbour [OF I merge(2) assms(4)] obtain ir' pr where
      q: "live (get pks) ir' pr" "left pr = idx + 1" "get itp (idx + 1) = Some ir'" by blast
    note sp = inv_spanD [OF I p(1)] and sq' = inv_spanD [OF I q(1)]
    have n: "il \<noteq> none" "ir' \<noteq> none"
      using span_label_not_none [OF sp] span_label_not_none [OF sq'] by simp_all
    have gp: "get pks il = Some pl" "get pks ir' = Some pr"
      using p(1) q(1) by (simp_all add: live_def)
    have ne: "il \<noteq> ir'"
    proof
      assume "il = ir'"
      with gp have "pl = pr" by simp
      with sp p(2) q(2) show False by (simp add: span_ok_def)
    qed
    have rg: "0 \<le> left pl" "left pl < int (length sq)" "0 \<le> right pr" "right pr < int (length sq)"
      using assigned_range [OF span_left_assigned [OF sp]]
        assigned_range [OF span_right_assigned [OF sq']] len by simp_all
    let ?bl = "sq ! nat (born pl)" and ?br = "sq ! nat (born pr)"
    note st = sweep_step_merge [OF len assms(2,3) p(3) n(1) q(3) n(2) gp ne
        peak_ok_get [OF I gp(1)] peak_ok_get [OF I gp(2)] rg]
    note rl = get_range [OF gp(1)] and rr = get_range [OF gp(2)]
    show ?thesis
    proof (cases "?bl > ?br")
      case True
      let ?pks = "pks[nat ir' := pr\<lparr>died := idx\<rparr>, nat il := pl\<lparr>right := right pr\<rparr>]"
      let ?itp = "itp[nat (right pr) := il, nat idx := il]"
      have st': "sweep_step sq (pks, itp) idx = Some (?pks, ?itp)" using st True by simp
      have g: "get ?itp = (get itp)(right pr \<mapsto> il, idx \<mapsto> il)"
        "get ?pks = (get pks)(ir' \<mapsto> pr\<lparr>died := idx\<rparr>, il \<mapsto> pl\<lparr>right := right pr\<rparr>)"
        using ir rg len rl rr by (simp_all add: get_update)
      have "inv ?n ((get pks)(ir' \<mapsto> pr\<lparr>died := idx\<rparr>, il \<mapsto> pl\<lparr>right := right pr\<rparr>))
               ((get itp)(right pr \<mapsto> il, idx \<mapsto> il))"
        by (rule inv_merge_left [OF I assms(4) p(1,2) q(1,2) assms(2,3)])
      then have "sweep_inv sq (?pks, ?itp)" using len by (simp add: sweep_inv_def g)
      moreover have "map born ?pks = map born pks"
        by (rule nth_equalityI) (use gp in \<open>auto simp: nth_list_update get_def split: if_splits\<close>)
      ultimately show ?thesis using st' merge n span_right_assigned [OF sq']
        by (simp add: g(1) assigned_upd2 step_kind_of_def)
    next
      case False
      let ?pks = "pks[nat il := pl\<lparr>died := idx\<rparr>, nat ir' := pr\<lparr>left := left pl\<rparr>]"
      let ?itp = "itp[nat (left pl) := ir', nat idx := ir']"
      have st': "sweep_step sq (pks, itp) idx = Some (?pks, ?itp)" using st False by simp
      have g: "get ?itp = (get itp)(left pl \<mapsto> ir', idx \<mapsto> ir')"
        "get ?pks = (get pks)(il \<mapsto> pl\<lparr>died := idx\<rparr>, ir' \<mapsto> pr\<lparr>left := left pl\<rparr>)"
        using ir rg len rl rr by (simp_all add: get_update)
      have "inv ?n ((get pks)(il \<mapsto> pl\<lparr>died := idx\<rparr>, ir' \<mapsto> pr\<lparr>left := left pl\<rparr>))
               ((get itp)(left pl \<mapsto> ir', idx \<mapsto> ir'))"
        by (rule inv_merge_right [OF I assms(4) p(1,2) q(1,2) assms(2,3)])
      then have "sweep_inv sq (?pks, ?itp)" using len by (simp add: sweep_inv_def g)
      moreover have "map born ?pks = map born pks"
        by (rule nth_equalityI) (use gp in \<open>auto simp: nth_list_update get_def split: if_splits\<close>)
      ultimately show ?thesis using st' merge n span_left_assigned [OF sp]
        by (simp add: g(1) assigned_upd2 step_kind_of_def)
    qed
  qed
qed


section \<open>The whole sweep\<close>

lemma sweep_append:
  "sweep sq (xs @ ys) s = (case sweep sq xs s of None \<Rightarrow> None | Some s' \<Rightarrow> sweep sq ys s')"
  by (induction xs arbitrary: s) (auto split: option.splits)

lemma sweep_inv_run:
  assumes "sweep_inv sq s" "distinct idxs"
    "\<forall>i \<in> set idxs. 0 \<le> i \<and> i < int (length sq) \<and> \<not> assigned (get (snd s)) i"
  shows "\<exists>s'. sweep sq idxs s = Some s' \<and> sweep_inv sq s' \<and>
           (\<forall>i. assigned (get (snd s')) i \<longleftrightarrow> assigned (get (snd s)) i \<or> i \<in> set idxs)"
  using assms
proof (induction idxs arbitrary: s)
  case Nil
  then show ?case by simp
next
  case (Cons idx idxs)
  obtain pks itp where s: "s = (pks, itp)" by (cases s)
  from Cons.prems(3) have i: "0 \<le> idx" "idx < int (length sq)" "\<not> assigned (get itp) idx"
    by (simp_all add: s)
  from sweep_step_inv [OF Cons.prems(1) [unfolded s] i] obtain pks' itp' where
    st: "sweep_step sq (pks, itp) idx = Some (pks', itp')" "sweep_inv sq (pks', itp')"
    "\<forall>i. assigned (get itp') i \<longleftrightarrow> assigned (get itp) i \<or> i = idx" by blast
  have "\<forall>i \<in> set idxs. 0 \<le> i \<and> i < int (length sq) \<and> \<not> assigned (get (snd (pks', itp'))) i"
    using Cons.prems(2,3) st(3) by (auto simp: s)
  with Cons.IH [OF st(2)] Cons.prems(2) obtain s' where
    "sweep sq idxs (pks', itp') = Some s'" "sweep_inv sq s'"
    "\<forall>i. assigned (get (snd s')) i \<longleftrightarrow> assigned (get (snd (pks', itp'))) i \<or> i \<in> set idxs"
    by auto
  then show ?case using st(1,3) by (auto simp: s)
qed

lemma sweep_inv_init: "sweep_inv sq (sweep_init sq)"
  by (auto simp: sweep_inv_def sweep_init_def inv_def assigned_def live_def get_def covered_def)

lemma not_assigned_init: "\<not> assigned (get (snd (sweep_init sq))) i"
  by (auto simp: sweep_init_def assigned_def get_def)

lemma set_indices: "set (indices sq) = {i. 0 \<le> i \<and> i < int (length sq)}"
proof -
  have "set (indices sq) = int ` {0..<length sq}" by (simp add: indices_def)
  also have "\<dots> = {i. 0 \<le> i \<and> i < int (length sq)}"
  proof (intro set_eqI iffI)
    fix i assume "i \<in> {i. 0 \<le> i \<and> i < int (length sq)}"
    then have "i = int (nat i)" "nat i \<in> {0..<length sq}" by auto
    then show "i \<in> int ` {0..<length sq}" by (rule image_eqI)
  qed auto
  finally show ?thesis .
qed

lemma distinct_indices: "distinct (indices sq)"
  by (simp add: indices_def distinct_map inj_on_def)


lemma sweep_all:
  "\<exists>pks itp. sweep sq (indices sq) (sweep_init sq) = Some (pks, itp) \<and> sweep_inv sq (pks, itp) \<and>
      (\<forall>i. assigned (get itp) i \<longleftrightarrow> 0 \<le> i \<and> i < int (length sq))"
proof -
  have "\<forall>i \<in> set (indices sq). 0 \<le> i \<and> i < int (length sq) \<and>
      \<not> assigned (get (snd (sweep_init sq))) i"
    by (simp add: set_indices not_assigned_init)
  from sweep_inv_run [OF sweep_inv_init distinct_indices this]
  obtain s' where s': "sweep sq (indices sq) (sweep_init sq) = Some s'" "sweep_inv sq s'"
    "\<forall>i. assigned (get (snd s')) i \<longleftrightarrow> i \<in> set (indices sq)"
    by (auto simp: not_assigned_init)
  then show ?thesis by (cases s') (auto simp: set_indices)
qed

lemma filter_one:
  assumes "k < length xs" "P (xs ! k)" "\<forall>j < length xs. P (xs ! j) \<longrightarrow> j = k"
  shows "length (filter P xs) = 1"
proof -
  have xs: "xs = take k xs @ xs ! k # drop (Suc k) xs"
    using assms(1) by (rule id_take_nth_drop)
  have "\<not> P x" if "x \<in> set (take k xs)" for x
  proof -
    from that obtain j where j: "j < k" "x = xs ! j"
      using assms(1) by (auto simp: in_set_conv_nth)
    then have "j < length xs" "j \<noteq> k" using assms(1) by simp_all
    with assms(3) j(2) show ?thesis by blast
  qed
  then have a: "filter P (take k xs) = []" by (simp add: filter_empty_conv)
  have "\<not> P x" if "x \<in> set (drop (Suc k) xs)" for x
  proof -
    from that obtain j where j: "j < length xs - Suc k" "x = xs ! (Suc k + j)"
      by (auto simp: in_set_conv_nth)
    then have "Suc k + j < length xs" "Suc k + j \<noteq> k" by simp_all
    with assms(3) j(2) show ?thesis by blast
  qed
  then have b: "filter P (drop (Suc k) xs) = []" by (simp add: filter_empty_conv)
  have "filter P xs = filter P (take k xs) @ filter P (xs ! k # drop (Suc k) xs)"
    by (subst xs) (simp only: filter_append)
  then show ?thesis using a b assms(2) by simp
qed

text \<open>
  C10.  For a sequence that is not empty, \<open>GetPeaks\<close> returns, and exactly one of the
  peaks it returns has \<open>died = none\<close>; the \<open>died\<close> of every other peak is an
  index of the sequence.
\<close>

theorem GetPeaks_one_survivor:
  assumes "sq \<noteq> []"
  shows "\<exists>pks. GetPeaks sq = Some pks \<and> seq pks = sq \<and>
           length (filter (\<lambda>p. died p = none) (peaks pks)) = 1 \<and>
           (\<forall>p \<in> set (peaks pks). died p \<noteq> none \<longrightarrow> 0 \<le> died p \<and> died p < int (length sq))"
proof -
  let ?n = "int (length sq)"
  obtain pks itp where sw: "sweep sq (indices sq) (sweep_init sq) = Some (pks, itp)"
    and si: "sweep_inv sq (pks, itp)"
    and al: "\<forall>i. assigned (get itp) i \<longleftrightarrow> 0 \<le> i \<and> i < ?n"
    using sweep_all [of sq] by blast
  from si have I: "inv ?n (get pks) (get itp)" by (simp add: sweep_inv_def)
  have "assigned (get itp) 0" using al assms by simp
  from inv_coveredD [OF I this] obtain p pk where p: "live (get pks) p pk"
    by (auto simp: covered_def)
  have lab: "get itp 0 = Some q" if "live (get pks) q qk" for q qk
  proof -
    from inv_spanD [OF I that] have s: "span_ok (get itp) q qk" .
    have "0 \<le> left qk" using span_left_assigned [OF s] al by simp
    moreover have "\<not> 0 \<le> left qk - 1"
    proof
      assume "0 \<le> left qk - 1"
      moreover have "left qk < ?n" using span_left_assigned [OF s] al by simp
      ultimately have "assigned (get itp) (left qk - 1)" using al by simp
      with s show False by (simp add: span_ok_def)
    qed
    ultimately have "left qk = 0" by simp
    with s show ?thesis by (simp add: span_ok_def)
  qed
  have gp: "get pks p = Some pk" "died pk = none" using p by (simp_all add: live_def)
  have k: "nat p < length pks" "pks ! nat p = pk" "0 \<le> p"
    using gp(1) by (auto simp: get_def split: if_splits)
  have uniq: "\<forall>j < length pks. died (pks ! j) = none \<longrightarrow> j = nat p"
  proof (intro allI impI)
    fix j assume j: "j < length pks" "died (pks ! j) = none"
    then have "live (get pks) (int j) (pks ! j)" by (simp add: live_def get_def)
    from lab [OF this] lab [OF p] show "j = nat p" by simp
  qed
  have one: "length (filter (\<lambda>p. died p = none) pks) = 1"
    by (rule filter_one [OF k(1)]) (use k(2) gp(2) uniq in auto)
  have dead: "0 \<le> died x \<and> died x < ?n" if "x \<in> set pks" "died x \<noteq> none" for x
  proof -
    from that(1) obtain j where "j < length pks" "x = pks ! j" by (auto simp: in_set_conv_nth)
    then have "get pks (int j) = Some x" by (simp add: get_def)
    with I that(2) show ?thesis by (auto simp: inv_def peak_ok_def)
  qed
  have "GetPeaks sq = Some \<lparr>peaks = sort_key born pks, seq = sq\<rparr>"
    by (simp add: GetPeaks_def sw)
  moreover have "length (filter (\<lambda>p. died p = none) (sort_key born pks)) = 1"
    using one by (simp add: filter_sort)
  ultimately show ?thesis using dead by auto
qed

theorem GetPeaks_one_survivor_witness:
  "[1, 3, 2, 5, 2, 4, 1 :: real] \<noteq> [] \<and>
   (\<exists>pks. GetPeaks [1, 3, 2, 5, 2, 4, 1] = Some pks \<and> seq pks = [1, 3, 2, 5, 2, 4, 1] \<and>
      length (filter (\<lambda>p. died p = none) (peaks pks)) = 1 \<and>
      (\<forall>p \<in> set (peaks pks). died p \<noteq> none \<longrightarrow> 0 \<le> died p \<and> died p < 7))"
  using GetPeaks_one_survivor [of "[1, 3, 2, 5, 2, 4, 1]"] by simp


section \<open>The merge of two peaks\<close>

lemma sweep_prefix:
  assumes "indices sq = P @ idx # Q" "sweep sq P (sweep_init sq) = Some (pks, itp)"
  shows "sweep_inv sq (pks, itp)" and "\<not> assigned (get itp) idx"
    and "0 \<le> idx" and "idx < int (length sq)"
    and "\<forall>i. assigned (get itp) i \<longleftrightarrow> i \<in> set P"
proof -
  have d: "distinct (P @ idx # Q)" using distinct_indices [of sq] assms(1) by simp
  have "idx \<in> set (indices sq)" by (simp add: assms(1))
  then show "0 \<le> idx" "idx < int (length sq)" by (simp_all add: set_indices)
  have "set P \<subseteq> set (indices sq)" by (auto simp: assms(1))
  then have "\<forall>i \<in> set P. 0 \<le> i \<and> i < int (length sq) \<and> \<not> assigned (get (snd (sweep_init sq))) i"
    by (auto simp: set_indices not_assigned_init)
  moreover have "distinct P" using d by simp
  ultimately obtain s' where "sweep sq P (sweep_init sq) = Some s'" "sweep_inv sq s'"
    "\<forall>i. assigned (get (snd s')) i \<longleftrightarrow> i \<in> set P"
    using sweep_inv_run [OF sweep_inv_init, of P sq] by (auto simp: not_assigned_init)
  with assms(2) show "sweep_inv sq (pks, itp)" and a: "\<forall>i. assigned (get itp) i \<longleftrightarrow> i \<in> set P"
    by auto
  show "\<not> assigned (get itp) idx" using a d by simp
qed

text \<open>
  C4.  \<open>idx\<close> is the index processed after the prefix \<open>P\<close> of the processing order,
  in the state \<open>(pks, idxtopeak)\<close> that the sweep has reached; both neighbours of
  \<open>idx\<close> are assigned, to the peaks \<open>il\<close> and \<open>ir\<close>.  Then the two peaks are
  different and live, the left one ends at \<open>idx - 1\<close> and was born left of \<open>idx\<close>,
  the right one starts at \<open>idx + 1\<close> and was born right of \<open>idx\<close>.  If the birth
  value of the left peak is strictly greater, the right peak dies at \<open>idx\<close> and the
  left peak's span is extended to the right end of the right peak; otherwise (the right
  birth value is strictly greater, or the two are equal) the left peak dies at \<open>idx\<close>
  and the right peak's span is extended to the left end of the left peak.
\<close>

theorem merge_step:
  assumes "indices sq = P @ idx # Q"
    and "sweep sq P (sweep_init sq) = Some (pks, idxtopeak)"
    and "get idxtopeak (idx - 1) = Some il" and "il \<noteq> none"
    and "get idxtopeak (idx + 1) = Some ir" and "ir \<noteq> none"
  shows "\<exists>pl pr. get pks il = Some pl \<and> get pks ir = Some pr \<and> il \<noteq> ir \<and>
           died pl = none \<and> died pr = none \<and>
           born pl < idx \<and> right pl = idx - 1 \<and> left pr = idx + 1 \<and> idx < born pr \<and>
           sweep_step sq (pks, idxtopeak) idx =
             Some (if sq ! nat (born pl) > sq ! nat (born pr)
                   then (pks[nat ir := pr\<lparr>died := idx\<rparr>, nat il := pl\<lparr>right := right pr\<rparr>],
                         idxtopeak[nat (right pr) := il, nat idx := il])
                   else (pks[nat il := pl\<lparr>died := idx\<rparr>, nat ir := pr\<lparr>left := left pl\<rparr>],
                         idxtopeak[nat (left pl) := ir, nat idx := ir]))"
proof -
  let ?n = "int (length sq)"
  note pre = sweep_prefix [OF assms(1,2)]
  from pre(1) have len: "length idxtopeak = length sq" and I: "inv ?n (get pks) (get idxtopeak)"
    by (simp_all add: sweep_inv_def)
  have a: "assigned (get idxtopeak) (idx - 1)" "assigned (get idxtopeak) (idx + 1)"
    using assms(3-6) by (auto simp: assigned_def)
  from left_neighbour [OF I a(1) pre(2)] assms(3) obtain pl where
    p: "live (get pks) il pl" "right pl = idx - 1" by auto
  from right_neighbour [OF I a(2) pre(2)] assms(5) obtain pr where
    q: "live (get pks) ir pr" "left pr = idx + 1" by auto
  note sp = inv_spanD [OF I p(1)] and sq' = inv_spanD [OF I q(1)]
  have gp: "get pks il = Some pl" "get pks ir = Some pr" "died pl = none" "died pr = none"
    using p(1) q(1) by (simp_all add: live_def)
  have ne: "il \<noteq> ir"
  proof
    assume "il = ir"
    with gp have "pl = pr" by simp
    with sp p(2) q(2) show False by (simp add: span_ok_def)
  qed
  have rg: "0 \<le> left pl" "left pl < int (length sq)" "0 \<le> right pr" "right pr < int (length sq)"
    using assigned_range [OF span_left_assigned [OF sp]]
      assigned_range [OF span_right_assigned [OF sq']] len by simp_all
  note st = sweep_step_merge [OF len pre(3,4) assms(3,4,5,6) gp(1,2) ne
      peak_ok_get [OF I gp(1)] peak_ok_get [OF I gp(2)] rg]
  have "born pl < idx" "idx < born pr" using sp sq' p(2) q(2) by (simp_all add: span_ok_def)
  with gp ne p(2) q(2) st show ?thesis by blast
qed

theorem merge_step_witness:
  "indices [1, 0, 1] = [0, 2] @ 1 # [] \<and>
   sweep [1, 0, 1] [0, 2] (sweep_init [1, 0, 1]) = Some ([newPeak 0, newPeak 2], [0, none, 1]) \<and>
   get [0, none, 1] (1 - 1) = Some 0 \<and> (0::int) \<noteq> none \<and>
   get [0, none, 1] (1 + 1) = Some 1 \<and> (1::int) \<noteq> none \<and>
   sweep_step [1, 0, 1] ([newPeak 0, newPeak 2], [0, none, 1]) 1 =
     Some ([\<lparr>born = 0, died = 1, left = 0, right = 0\<rparr>, \<lparr>born = 2, died = none, left = 0, right = 2\<rparr>],
           [1, 1, 1])"
proof -
  have h1: "indices [1, 0, 1] = [0, 2] @ 1 # []"
    by (simp add: indices_def upt_rec)
  have h2: "sweep [1, 0, 1] [0, 2] (sweep_init [1, 0, 1]) = Some ([newPeak 0, newPeak 2], [0, none, 1])"
    by (simp add: sweep_init_def sweep_step_def get_def put_def none_def Let_def)
  have h3: "get [0, none, 1] (1 - 1) = Some 0" and h4: "(0::int) \<noteq> none"
    and h5: "get [0, none, 1] (1 + 1) = Some 1" and h6: "(1::int) \<noteq> none"
    by (simp_all add: get_def none_def)
  from merge_step [OF h1 h2 h3 h4 h5 h6]
  have "sweep_step [1, 0, 1] ([newPeak 0, newPeak 2], [0, none, 1]) 1 =
     Some ([\<lparr>born = 0, died = 1, left = 0, right = 0\<rparr>, \<lparr>born = 2, died = none, left = 0, right = 2\<rparr>],
           [1, 1, 1])"
    by (auto simp: get_def newPeak_def)
  with h1 h2 h3 h4 h5 h6 show ?thesis by blast
qed


section \<open>Persistence, and the sweep of a single hump\<close>

text \<open>
  The persistence of a peak is a \<open>float64\<close> that can be \<open>+Inf\<close>.  \<open>float\<close> has
  the finite values as reals (rounding left out, one zero) and the three special values
  of IEEE 754.
\<close>

datatype float = Fin real | PInf | NInf | NaN

definition getPersistence :: "Peak \<Rightarrow> real list \<Rightarrow> float option" where
  "getPersistence p sq =
     (if died p = none then Some PInf
      else do { b \<leftarrow> get sq (born p); d \<leftarrow> get sq (died p); Some (Fin (b - d)) })"

definition single_hump :: "real list \<Rightarrow> nat \<Rightarrow> bool" where
  "single_hump sq m =
     (m < length sq \<and> list_all (\<lambda>i. sq ! i < sq ! Suc i) [0..<m] \<and>
      list_all (\<lambda>i. sq ! Suc i < sq ! i) [m..<length sq - 1])"

lemma sorted_indices: "sorted (map (\<lambda>i. - sq ! nat i) (indices sq))"
  by (simp add: indices_def)

lemma order_before:
  assumes "indices sq = P @ idx # R" "0 \<le> j" "j < int (length sq)" "sq ! nat idx < sq ! nat j"
  shows "j \<in> set P"
proof -
  have "j \<in> set (indices sq)" using assms(2,3) by (simp add: set_indices)
  moreover have "j \<noteq> idx" using assms(4) by auto
  moreover have "j \<notin> set R"
  proof
    assume "j \<in> set R"
    with sorted_indices [of sq] have "- sq ! nat idx \<le> - sq ! nat j"
      by (auto simp: assms(1) sorted_append)
    with assms(4) show False by simp
  qed
  ultimately show ?thesis by (simp add: assms(1))
qed

lemma order_after:
  assumes "indices sq = P @ idx # R" "sq ! nat j < sq ! nat idx"
  shows "j \<notin> set P"
proof
  assume "j \<in> set P"
  with sorted_indices [of sq] have "- sq ! nat j \<le> - sq ! nat idx"
    by (auto simp: assms(1) sorted_append)
  with assms(2) show False by simp
qed

lemma single_humpD:
  assumes "single_hump sq m"
  shows "m < length sq" and "i < m \<Longrightarrow> sq ! i < sq ! Suc i"
    and "m \<le> i \<Longrightarrow> Suc i < length sq \<Longrightarrow> sq ! Suc i < sq ! i"
  using assms by (auto simp: single_hump_def list_all_iff)

lemma hump_run:
  assumes "single_hump sq m" "indices sq = P @ R" "sweep sq P (sweep_init sq) = Some (pks, itp)"
  shows "\<exists>pks' itp'. sweep sq R (pks, itp) = Some (pks', itp') \<and>
           map born pks' = map born pks @ (if int m \<in> set R then [int m] else []) \<and>
           map died pks' = map died pks @ (if int m \<in> set R then [none] else [])"
  using assms(2,3)
proof (induction R arbitrary: P pks itp)
  case Nil
  then show ?case by simp
next
  case (Cons idx R)
  note pre = sweep_prefix [OF Cons.prems]
  have d: "distinct (P @ idx # R)" using distinct_indices [of sq] Cons.prems(1) by simp
  let ?n = "int (length sq)"
  have as: "assigned (get itp) i \<longleftrightarrow> i \<in> set P" for i using pre(5) by simp
  have out: "\<not> assigned (get itp) i" if "i < 0 \<or> ?n \<le> i" for i
  proof -
    have "i \<notin> set (indices sq)" using that by (auto simp: set_indices)
    then show ?thesis by (simp add: as Cons.prems(1))
  qed
  from sweep_step_inv [OF pre(1,3,4,2)] obtain pks' itp' where
    st: "sweep_step sq (pks, itp) idx = Some (pks', itp')"
    "step_kind_of itp idx = Birth \<longrightarrow> pks' = pks @ [newPeak idx]"
    "step_kind_of itp idx \<noteq> Birth \<longrightarrow> map born pks' = map born pks"
    "step_kind_of itp idx \<in> {AbsorbLeft, AbsorbRight} \<longrightarrow> map died pks' = map died pks"
    by blast
  have sw: "sweep sq (P @ [idx]) (sweep_init sq) = Some (pks', itp')"
    by (simp add: sweep_append Cons.prems(2) st(1))
  have "indices sq = (P @ [idx]) @ R" by (simp add: Cons.prems(1))
  from Cons.IH [OF this sw] obtain pks'' itp'' where
    IH: "sweep sq R (pks', itp') = Some (pks'', itp'')"
    "map born pks'' = map born pks' @ (if int m \<in> set R then [int m] else [])"
    "map died pks'' = map died pks' @ (if int m \<in> set R then [none] else [])"
    by blast
  have run: "sweep sq (idx # R) (pks, itp) = Some (pks'', itp'')" by (simp add: st(1) IH(1))
  have lt: "\<not> assigned (get itp) (idx - 1)" if "idx \<le> int m"
  proof (cases "idx = 0")
    case True
    then show ?thesis using out [of "idx - 1"] by simp
  next
    case False
    then have "nat (idx - 1) < m" "Suc (nat (idx - 1)) = nat idx" using that pre(3) by simp_all
    with single_humpD(2) [OF assms(1), of "nat (idx - 1)"]
    have "sq ! nat (idx - 1) < sq ! nat idx" by simp
    from order_after [OF Cons.prems(1) this] show ?thesis by (simp add: as)
  qed
  have gt: "\<not> assigned (get itp) (idx + 1)" if "int m \<le> idx"
  proof (cases "idx + 1 < ?n")
    case False
    then show ?thesis using out [of "idx + 1"] by simp
  next
    case True
    then have "m \<le> nat idx" "Suc (nat idx) < length sq" "Suc (nat idx) = nat (idx + 1)"
      using that pre(3) by simp_all
    with single_humpD(3) [OF assms(1), of "nat idx"]
    have "sq ! nat (idx + 1) < sq ! nat idx" by simp
    from order_after [OF Cons.prems(1) this] show ?thesis by (simp add: as)
  qed
  have lt': "assigned (get itp) (idx - 1)" if "int m < idx"
  proof -
    have "m \<le> nat (idx - 1)" "Suc (nat (idx - 1)) < length sq" "Suc (nat (idx - 1)) = nat idx"
      using that pre(4) by simp_all
    with single_humpD(3) [OF assms(1), of "nat (idx - 1)"]
    have "sq ! nat idx < sq ! nat (idx - 1)" by simp
    from order_before [OF Cons.prems(1) _ _ this] that pre(4) show ?thesis by (simp add: as)
  qed
  have gt': "assigned (get itp) (idx + 1)" if "idx < int m"
  proof -
    have "nat idx < m" "Suc (nat idx) = nat (idx + 1)" using that pre(3) by simp_all
    with single_humpD(2) [OF assms(1), of "nat idx"]
    have "sq ! nat idx < sq ! nat (idx + 1)" by simp
    from order_before [OF Cons.prems(1) _ _ this] that pre(3) single_humpD(1) [OF assms(1)]
    show ?thesis by (simp add: as)
  qed
  consider "idx = int m" | "idx < int m" | "int m < idx" by linarith
  then show ?case
  proof cases
    case 1
    then have "step_kind_of itp idx = Birth" using lt gt by (simp add: step_kind_of_def)
    with st(2) have "pks' = pks @ [newPeak idx]" by simp
    moreover have "int m \<notin> set R" using d 1 by simp
    ultimately show ?thesis using run IH(2,3) 1 by (simp add: newPeak_def)
  next
    case 2
    then have "step_kind_of itp idx = AbsorbRight" using lt gt' by (simp add: step_kind_of_def)
    with st(3,4) have "map born pks' = map born pks" "map died pks' = map died pks" by simp_all
    then show ?thesis using run IH(2,3) 2 by simp
  next
    case 3
    then have "step_kind_of itp idx = AbsorbLeft" using lt' gt by (simp add: step_kind_of_def)
    with st(3,4) have "map born pks' = map born pks" "map died pks' = map died pks" by simp_all
    then show ?thesis using run IH(2,3) 3 by simp
  qed
qed

text \<open>
  C8.  On a sequence that rises strictly up to index \<open>m\<close> and falls strictly after
  it, \<open>GetPeaks\<close> returns exactly one peak, born at \<open>m\<close>, that never died; its
  persistence is \<open>+Inf\<close>.
\<close>

theorem GetPeaks_single_hump:
  assumes "single_hump sq m"
  shows "\<exists>pk. GetPeaks sq = Some \<lparr>peaks = [pk], seq = sq\<rparr> \<and> born pk = int m \<and>
           died pk = none \<and> getPersistence pk sq = Some PInf"
proof -
  have "int m \<in> set (indices sq)" using single_humpD(1) [OF assms] by (simp add: set_indices)
  with hump_run [OF assms, of "[]" "indices sq" "[]" "replicate (length sq) none"]
  obtain pks itp where r: "sweep sq (indices sq) (sweep_init sq) = Some (pks, itp)"
    "map born pks = [int m]" "map died pks = [none]"
    by (auto simp: sweep_init_def)
  from r(2) obtain pk where pk: "pks = [pk]" by (cases pks) auto
  with r(2,3) have "born pk = int m" "died pk = none" by simp_all
  moreover have "GetPeaks sq = Some \<lparr>peaks = [pk], seq = sq\<rparr>"
    by (simp add: GetPeaks_def r(1) pk)
  ultimately show ?thesis by (simp add: getPersistence_def)
qed

theorem GetPeaks_single_hump_witness:
  "single_hump [1, 2, 5, 4, 3] 2 \<and>
   (\<exists>pk. GetPeaks [1, 2, 5, 4, 3] = Some \<lparr>peaks = [pk], seq = [1, 2, 5, 4, 3]\<rparr> \<and> born pk = 2 \<and>
      died pk = none \<and> getPersistence pk [1, 2, 5, 4, 3] = Some PInf)"
proof -
  have h: "single_hump [1, 2, 5, 4, 3] 2" by (simp add: single_hump_def upt_rec)
  from GetPeaks_single_hump [OF h] h show ?thesis by simp
qed


section \<open>MinMaxPersistence and GetIndices\<close>

text \<open>
  Comparison and division of \<open>float64\<close> on \<open>float\<close>: a comparison with NaN is
  false; an infinity divided by an infinity is NaN, and so is zero divided by zero; a
  finite value other than zero divided by zero, and an infinity divided by a finite
  value, is the infinity of the sign of the quotient (the zero of the model is \<open>+0\<close>).
\<close>

fun flt :: "float \<Rightarrow> float \<Rightarrow> bool" where
  "flt NaN b = False"
| "flt a NaN = False"
| "flt a NInf = False"
| "flt PInf b = False"
| "flt NInf b = True"
| "flt (Fin x) PInf = True"
| "flt (Fin x) (Fin y) = (x < y)"

fun fge :: "float \<Rightarrow> float \<Rightarrow> bool" where
  "fge NaN b = False"
| "fge a NaN = False"
| "fge a b = (\<not> flt a b)"

fun fdiv :: "float \<Rightarrow> float \<Rightarrow> float" where
  "fdiv NaN b = NaN"
| "fdiv a NaN = NaN"
| "fdiv PInf PInf = NaN"
| "fdiv PInf NInf = NaN"
| "fdiv NInf PInf = NaN"
| "fdiv NInf NInf = NaN"
| "fdiv PInf (Fin y) = (if y < 0 then NInf else PInf)"
| "fdiv NInf (Fin y) = (if y < 0 then PInf else NInf)"
| "fdiv (Fin x) PInf = Fin 0"
| "fdiv (Fin x) NInf = Fin 0"
| "fdiv (Fin x) (Fin y) =
     (if y = 0 then (if x = 0 then NaN else if 0 < x then PInf else NInf) else Fin (x / y))"

text \<open>
  \<open>MinMaxPersistence\<close>: \<open>max, min = math.Inf(-1), math.Inf(1)\<close>, then for each peak
  \<open>if prs > max && prs < math.Inf(1) { max = prs }; if prs < min { min = prs }\<close>.
  The state of the loop is \<open>(min, max)\<close>, as the results are returned.
\<close>

fun MinMaxPersistence_loop :: "Peak list \<Rightarrow> real list \<Rightarrow> float \<times> float \<Rightarrow> (float \<times> float) option" where
  "MinMaxPersistence_loop [] sq mm = Some mm"
| "MinMaxPersistence_loop (pk # pks) sq (mn, mx) =
     (case getPersistence pk sq of
        None \<Rightarrow> None
      | Some prs \<Rightarrow>
          MinMaxPersistence_loop pks sq
            (if flt prs mn then prs else mn, if flt mx prs \<and> flt prs PInf then prs else mx))"

definition MinMaxPersistence :: "Peaks \<Rightarrow> (float \<times> float) option" where
  "MinMaxPersistence pks = MinMaxPersistence_loop (peaks pks) (seq pks) (PInf, NInf)"

text \<open>
  \<open>GetIndices\<close>: the \<open>born\<close> of each peak with
  \<open>pk.getPersistence(pks.seq)/maxPersistence >= fracOfMaxPersistence\<close>, in the order of
  the peaks.
\<close>

fun GetIndices_loop :: "Peak list \<Rightarrow> real list \<Rightarrow> float \<Rightarrow> float \<Rightarrow> int list option" where
  "GetIndices_loop [] sq maxPersistence fr = Some []"
| "GetIndices_loop (pk # pks) sq maxPersistence fr =
     (case getPersistence pk sq of
        None \<Rightarrow> None
      | Some prs \<Rightarrow>
          (case GetIndices_loop pks sq maxPersistence fr of
             None \<Rightarrow> None
           | Some idxs \<Rightarrow>
               Some (if fge (fdiv prs maxPersistence) fr then born pk # idxs else idxs)))"

definition GetIndices :: "Peaks \<Rightarrow> float \<Rightarrow> int list option" where
  "GetIndices pks fracOfMaxPersistence =
     (case MinMaxPersistence pks of
        None \<Rightarrow> None
      | Some (mn, maxPersistence) \<Rightarrow>
          GetIndices_loop (peaks pks) (seq pks) maxPersistence fracOfMaxPersistence)"

text \<open>
  Where the maximum finite persistence is a positive number, a peak with infinite
  persistence passes the test of \<open>GetIndices\<close> for every finite fraction.
\<close>

lemma infinite_persistence_qualifies: "0 < x \<Longrightarrow> fge (fdiv PInf (Fin x)) (Fin f)"
  by simp

text \<open>
  Where no peak has a finite persistence, \<open>maxPersistence\<close> is still \<open>-Inf\<close>, the
  quotient of the infinite persistence by it is NaN, and the test fails for every
  fraction.
\<close>

lemma infinite_persistence_alone: "\<not> fge (fdiv PInf NInf) fr"
  by simp

text \<open>
  C2 on the one-sample sequence \<open>[1]\<close> with the fraction \<open>1/2\<close>: the only peak is
  born at 0 and never dies, its persistence is \<open>+Inf\<close>, \<open>maxPersistence\<close> is
  \<open>-Inf\<close>, and \<open>GetIndices\<close> returns no index.
\<close>

theorem GetIndices_single_peak:
  "\<exists>pks pk. GetPeaks [1] = Some pks \<and> peaks pks = [pk] \<and> born pk = 0 \<and>
      getPersistence pk (seq pks) = Some PInf \<and>
      MinMaxPersistence pks = Some (PInf, NInf) \<and>
      GetIndices pks (Fin (1 / 2)) = Some []"
  by (simp add: GetPeaks_def indices_def sweep_init_def sweep_step_def get_def put_def Let_def
      newPeak_def getPersistence_def MinMaxPersistence_def GetIndices_def)


end
